theory Spec2Isabelle
  imports Complex_Main "HOL-Library.AList"
begin

section \<open>Values and host primitives\<close>

text \<open>
  The engine is TypeScript (\<^verbatim>\<open>src/index.ts\<close>). A \<^verbatim>\<open>Value\<close> is a string, a number, a
  boolean, \<^verbatim>\<open>null\<close>, \<^verbatim>\<open>undefined\<close>, an array of values or an object from string keys to
  values. Numbers are JavaScript numbers: the model keeps not-a-number and the two
  infinities apart from the finite numbers and takes a finite number as the exact rational
  it denotes (rounding to binary64 is not modelled; no operation of the engine computes
  with numbers beyond comparing them). Strings are lists of code units. An object is an
  association list of its own enumerable properties, read with \<open>map_of\<close>.
\<close>

datatype jsnum = NaN | PInf | NInf | Fin rat

datatype Value =
    VUndef
  | VNull
  | VBool bool
  | VNum jsnum
  | VStr string
  | VArr "Value list"
  | VObj "(string \<times> Value) list"

type_synonym TemplateData = "(string \<times> Value) list"

text \<open>
  The operations of the JavaScript runtime that the engine calls and that this development
  does not spell out are parameters, collected in a record: identity of two arrays or
  objects (\<^verbatim>\<open>===\<close> on references), conversion of a string to a number, printing of a
  number that is not a small integer, case conversion, trimming and \<^verbatim>\<open>split\<close>.
  Every theorem below holds for every such record.
\<close>

record host =
  sameRef :: "Value \<Rightarrow> Value \<Rightarrow> bool"
  strToNum :: "string \<Rightarrow> jsnum"
  fracToStr :: "rat \<Rightarrow> string"
  toLowerCase :: "string \<Rightarrow> string"
  toUpperCase :: "string \<Rightarrow> string"
  trim :: "string \<Rightarrow> string"
  split :: "string \<Rightarrow> string \<Rightarrow> string list"

text \<open>Decimal digits of a natural number, as \<^verbatim>\<open>String(n)\<close> prints an integer.\<close>

fun dec :: "nat \<Rightarrow> string" where
  "dec n = (if n < 10 then [''0123456789'' ! n]
            else dec (n div 10) @ [''0123456789'' ! (n mod 10)])"

declare dec.simps [simp del]

text \<open>
  White space: the four characters of \<^verbatim>\<open>" \t\n\r"\<close> that the parser skips.
\<close>

definition isWs :: "char \<Rightarrow> bool" where
  "isWs c = (c = CHR '' '' \<or> c = CHR 0x09 \<or> c = CHR 0x0A \<or> c = CHR 0x0D)"

text \<open>
  A host for the closed examples of this development: ASCII case conversion and trimming,
  an optionally signed run of decimal digits as a number, a plain decimal expansion for
  a number that is not an integer, references compared by value.
\<close>

definition asciiLower :: "char \<Rightarrow> char" where
  "asciiLower c =
     (if 65 \<le> (of_char c :: nat) \<and> (of_char c :: nat) \<le> 90
      then char_of ((of_char c :: nat) + 32) else c)"

definition asciiUpper :: "char \<Rightarrow> char" where
  "asciiUpper c =
     (if 97 \<le> (of_char c :: nat) \<and> (of_char c :: nat) \<le> 122
      then char_of ((of_char c :: nat) - 32) else c)"


fun splitOn :: "string \<Rightarrow> nat \<Rightarrow> string \<Rightarrow> string \<Rightarrow> string list" where
  "splitOn sep skip cur [] = [cur]"
| "splitOn sep skip cur (c # cs) =
     (if 0 < skip then splitOn sep (skip - 1) cur cs
      else if take (length sep) (c # cs) = sep then cur # splitOn sep (length sep - 1) [] cs
      else splitOn sep 0 (cur @ [c]) cs)"

definition decimalNum :: "string \<Rightarrow> jsnum" where
  "decimalNum s =
     (if s = [] then Fin 0
      else if list_all (\<lambda>c. c \<in> set ''0123456789'') s
      then Fin (of_nat (foldl (\<lambda>acc c. 10 * acc + ((of_char c :: nat) - 48)) 0 s))
      else if hd s = CHR ''-'' \<and> tl s \<noteq> [] \<and> list_all (\<lambda>c. c \<in> set ''0123456789'') (tl s)
      then Fin (- of_nat (foldl (\<lambda>acc c. 10 * acc + ((of_char c :: nat) - 48)) 0 (tl s)))
      else NaN)"

fun fracDigits :: "nat \<Rightarrow> rat \<Rightarrow> string" where
  "fracDigits 0 r = []"
| "fracDigits (Suc k) r =
     (if r = 0 then []
      else (''0123456789'' ! nat \<lfloor>r * 10\<rfloor>) # fracDigits k (r * 10 - of_int \<lfloor>r * 10\<rfloor>))"

definition decimalStr :: "rat \<Rightarrow> string" where
  "decimalStr q =
     (if q < 0 then ''-'' else []) @ dec (nat \<lfloor>\<bar>q\<bar>\<rfloor>) @ ''.''
       @ fracDigits 17 (\<bar>q\<bar> - of_int \<lfloor>\<bar>q\<bar>\<rfloor>)"

definition sampleHost :: host where
  "sampleHost =
     \<lparr> sameRef = (\<lambda>a b. a = b),
       strToNum = decimalNum,
       fracToStr = decimalStr,
       toLowerCase = map asciiLower,
       toUpperCase = map asciiUpper,
       trim = (\<lambda>s. rev (dropWhile isWs (rev (dropWhile isWs s)))),
       split = (\<lambda>s sep. if sep = [] then map (\<lambda>c. [c]) s else splitOn sep 0 [] s) \<rparr>"

definition numToString :: "host \<Rightarrow> jsnum \<Rightarrow> string" where
  "numToString h n =
     (case n of
        NaN \<Rightarrow> ''NaN''
      | PInf \<Rightarrow> ''Infinity''
      | NInf \<Rightarrow> ''-Infinity''
      | Fin q \<Rightarrow>
          if of_int \<lfloor>q\<rfloor> = q \<and> \<bar>q\<bar> < 10 ^ 21
          then (if q < 0 then ''-'' @ dec (nat (- \<lfloor>q\<rfloor>)) else dec (nat \<lfloor>q\<rfloor>))
          else fracToStr h q)"

text \<open>\<^verbatim>\<open>xs.join(sep)\<close> on already printed elements.\<close>

fun join_str :: "string \<Rightarrow> string list \<Rightarrow> string" where
  "join_str sep [] = []"
| "join_str sep [x] = x"
| "join_str sep (x # y # ys) = x @ sep @ join_str sep (y # ys)"

text \<open>
  \<^verbatim>\<open>String(v)\<close>. An array prints its elements joined by commas, with \<^verbatim>\<open>null\<close> and
  \<^verbatim>\<open>undefined\<close> elements printed as nothing; a plain object prints as
  \<^verbatim>\<open>[object Object]\<close>.
\<close>

fun toStr :: "host \<Rightarrow> Value \<Rightarrow> string" where
  "toStr h VUndef = ''undefined''"
| "toStr h VNull = ''null''"
| "toStr h (VBool b) = (if b then ''true'' else ''false'')"
| "toStr h (VNum n) = numToString h n"
| "toStr h (VStr s) = s"
| "toStr h (VArr xs) =
     join_str '','' (map (\<lambda>x. if x = VUndef \<or> x = VNull then [] else toStr h x) xs)"
| "toStr h (VObj kvs) = ''[object Object]''"

text \<open>\<^verbatim>\<open>Number(v)\<close>: an array or object is converted through its string form.\<close>

definition toNumber :: "host \<Rightarrow> Value \<Rightarrow> jsnum" where
  "toNumber h v =
     (case v of
        VUndef \<Rightarrow> NaN
      | VNull \<Rightarrow> Fin 0
      | VBool b \<Rightarrow> Fin (if b then 1 else 0)
      | VNum n \<Rightarrow> n
      | VStr s \<Rightarrow> strToNum h s
      | VArr xs \<Rightarrow> strToNum h (toStr h v)
      | VObj kvs \<Rightarrow> strToNum h (toStr h v))"

text \<open>Comparison of numbers: every comparison with not-a-number is false.\<close>

fun num_lt :: "jsnum \<Rightarrow> jsnum \<Rightarrow> bool" where
  "num_lt NaN y = False"
| "num_lt x NaN = False"
| "num_lt PInf y = False"
| "num_lt NInf NInf = False"
| "num_lt NInf y = True"
| "num_lt (Fin a) PInf = True"
| "num_lt (Fin a) NInf = False"
| "num_lt (Fin a) (Fin b) = (a < b)"

definition num_le :: "jsnum \<Rightarrow> jsnum \<Rightarrow> bool" where
  "num_le x y = (x \<noteq> NaN \<and> y \<noteq> NaN \<and> \<not> num_lt y x)"

text \<open>\<^verbatim>\<open>a === b\<close>: by value on primitives, by reference on arrays and objects.\<close>

fun strictEq :: "host \<Rightarrow> Value \<Rightarrow> Value \<Rightarrow> bool" where
  "strictEq h VUndef VUndef = True"
| "strictEq h VNull VNull = True"
| "strictEq h (VBool a) (VBool b) = (a = b)"
| "strictEq h (VNum a) (VNum b) = (a \<noteq> NaN \<and> b \<noteq> NaN \<and> a = b)"
| "strictEq h (VStr a) (VStr b) = (a = b)"
| "strictEq h (VArr a) (VArr b) = sameRef h (VArr a) (VArr b)"
| "strictEq h (VObj a) (VObj b) = sameRef h (VObj a) (VObj b)"
| "strictEq h x y = False"

text \<open>
  \<^verbatim>\<open>xs.slice(0, n)\<close> for a number \<open>n\<close>: the end is truncated to an integer, a negative end
  counts from the back, and the result is clamped to the sequence.
\<close>

definition sliceTo :: "'a list \<Rightarrow> jsnum \<Rightarrow> 'a list" where
  "sliceTo xs n =
     (case n of
        NaN \<Rightarrow> []
      | PInf \<Rightarrow> xs
      | NInf \<Rightarrow> []
      | Fin q \<Rightarrow>
          (let t = (if q < 0 then \<lceil>q\<rceil> else \<lfloor>q\<rfloor>);
               len = int (length xs);
               k = (if t < 0 then max (len + t) 0 else min t len)
           in take (nat k) xs))"

section \<open>Truthiness\<close>

definition keys :: "(string \<times> Value) list \<Rightarrow> string list" where
  "keys kvs = remdups (map fst kvs)"

text \<open>
  \<^verbatim>\<open>truthy\<close>: the negation of the chain of tests \<^verbatim>\<open>v === null || v === undefined ||
  v === false || v === 0 || v === "" || Number.isNaN(v) || (array of length 0) ||
  (object with no keys)\<close>.
\<close>

fun truthy :: "Value \<Rightarrow> bool" where
  "truthy VNull = False"
| "truthy VUndef = False"
| "truthy (VBool b) = b"
| "truthy (VNum n) = (n \<noteq> Fin 0 \<and> n \<noteq> NaN)"
| "truthy (VStr s) = (s \<noteq> [])"
| "truthy (VArr xs) = (length xs \<noteq> 0)"
| "truthy (VObj kvs) = (length (keys kvs) \<noteq> 0)"

section \<open>Expressions\<close>

datatype Expr =
    L Value
  | V "string list"
  | C string "Expr list"
  | P Expr string "Expr list"

subsection \<open>Variable paths\<close>

text \<open>
  A canonical array index: the decimal digits of a natural number with no leading zero.
\<close>

definition isDigit :: "char \<Rightarrow> bool" where
  "isDigit c = (c \<in> set ''0123456789'')"

definition digitVal :: "char \<Rightarrow> nat" where
  "digitVal c = (of_char c :: nat) - 48"

definition digitsVal :: "string \<Rightarrow> nat" where
  "digitsVal s = foldl (\<lambda>acc c. 10 * acc + digitVal c) 0 s"

definition indexOf :: "string \<Rightarrow> nat option" where
  "indexOf k =
     (if k \<noteq> [] \<and> list_all isDigit k \<and> (k = ''0'' \<or> hd k \<noteq> CHR ''0'')
      then Some (digitsVal k) else None)"

text \<open>
  \<^verbatim>\<open>Object.prototype.hasOwnProperty.call(v, k)\<close>. An object owns its keys; an array and a
  (boxed) string own \<^verbatim>\<open>length\<close> and their indices; a number or a boolean owns nothing.
  It is only called on a value that is neither \<^verbatim>\<open>null\<close> nor \<^verbatim>\<open>undefined\<close>.
\<close>

fun has :: "Value \<Rightarrow> string \<Rightarrow> bool" where
  "has (VObj kvs) k = (map_of kvs k \<noteq> None)"
| "has (VArr xs) k =
     (k = ''length'' \<or> (case indexOf k of Some i \<Rightarrow> i < length xs | None \<Rightarrow> False))"
| "has (VStr s) k =
     (k = ''length'' \<or> (case indexOf k of Some i \<Rightarrow> i < length s | None \<Rightarrow> False))"
| "has v k = False"

text \<open>The read \<^verbatim>\<open>v[k]\<close> of a property that \<open>v\<close> owns.\<close>

fun getProp :: "Value \<Rightarrow> string \<Rightarrow> Value" where
  "getProp (VObj kvs) k = (case map_of kvs k of Some x \<Rightarrow> x | None \<Rightarrow> VUndef)"
| "getProp (VArr xs) k =
     (if k = ''length'' then VNum (Fin (of_nat (length xs)))
      else case indexOf k of
             Some i \<Rightarrow> (if i < length xs then xs ! i else VUndef)
           | None \<Rightarrow> VUndef)"
| "getProp (VStr s) k =
     (if k = ''length'' then VNum (Fin (of_nat (length s)))
      else case indexOf k of
             Some i \<Rightarrow> (if i < length s then VStr [s ! i] else VUndef)
           | None \<Rightarrow> VUndef)"
| "getProp v k = VUndef"

definition nullish :: "Value \<Rightarrow> bool" where
  "nullish v = (v = VNull \<or> v = VUndef)"

text \<open>
  The loop of the \<^verbatim>\<open>V\<close> branch of \<^verbatim>\<open>ev\<close>:
  \<^verbatim>\<open>for (const k of e.path) { if (v == null || !has(v, k)) return undefined; v = v[k]; }\<close>
\<close>

fun walk :: "Value \<Rightarrow> string list \<Rightarrow> Value" where
  "walk v [] = v"
| "walk v (k # ks) = (if nullish v \<or> \<not> has v k then VUndef else walk (getProp v k) ks)"

subsection \<open>Built-in functions\<close>

text \<open>
  Built-ins receive the context and the unevaluated argument expressions and call
  \<^verbatim>\<open>ev\<close> themselves. In the model a built-in receives the evaluator of the current
  context as a function \<open>evf\<close>. To speak about which expressions get evaluated, the
  evaluator returns, next to the value, the list of the expressions it was called on, in
  call order.
\<close>

type_synonym result = "Value \<times> Expr list"

type_synonym evaluator = "Expr \<Rightarrow> result"

text \<open>\<^verbatim>\<open>ck(a, n, name)\<close>: the error string when fewer than \<open>n\<close> arguments are given.\<close>

definition ck :: "Expr list \<Rightarrow> nat \<Rightarrow> string \<Rightarrow> string option" where
  "ck a n name =
     (if length a < n then Some (''[Error: '' @ name @ ''() needs '' @ dec n @ '' args]'')
      else None)"

text \<open>
  \<^verbatim>\<open>ev(a[i], ctx)\<close>: when the argument is missing, \<^verbatim>\<open>a[i]\<close> is \<^verbatim>\<open>undefined\<close> and
  \<^verbatim>\<open>ev\<close> returns \<^verbatim>\<open>undefined\<close> at once (\<^verbatim>\<open>if (!e) return undefined\<close>).
\<close>

definition evA :: "evaluator \<Rightarrow> Expr list \<Rightarrow> nat \<Rightarrow> result" where
  "evA evf a i = (if i < length a then evf (a ! i) else (VUndef, []))"

definition fn_eq :: "host \<Rightarrow> evaluator \<Rightarrow> Expr list \<Rightarrow> result" where
  "fn_eq h evf a =
     (case ck a 2 ''eq'' of
        Some e \<Rightarrow> (VStr e, [])
      | None \<Rightarrow>
          (case evA evf a 0 of (x, l0) \<Rightarrow>
           case evA evf a 1 of (y, l1) \<Rightarrow>
             (VBool (strictEq h x y), l0 @ l1)))"

definition fn_ne :: "host \<Rightarrow> evaluator \<Rightarrow> Expr list \<Rightarrow> result" where
  "fn_ne h evf a =
     (case ck a 2 ''ne'' of
        Some e \<Rightarrow> (VStr e, [])
      | None \<Rightarrow>
          (case evA evf a 0 of (x, l0) \<Rightarrow>
           case evA evf a 1 of (y, l1) \<Rightarrow>
             (VBool (\<not> strictEq h x y), l0 @ l1)))"

definition fn_gt :: "host \<Rightarrow> evaluator \<Rightarrow> Expr list \<Rightarrow> result" where
  "fn_gt h evf a =
     (case ck a 2 ''gt'' of
        Some e \<Rightarrow> (VStr e, [])
      | None \<Rightarrow>
          (case evA evf a 0 of (x, l0) \<Rightarrow>
           case evA evf a 1 of (y, l1) \<Rightarrow>
             (VBool (num_lt (toNumber h y) (toNumber h x)), l0 @ l1)))"

definition fn_lt :: "host \<Rightarrow> evaluator \<Rightarrow> Expr list \<Rightarrow> result" where
  "fn_lt h evf a =
     (case ck a 2 ''lt'' of
        Some e \<Rightarrow> (VStr e, [])
      | None \<Rightarrow>
          (case evA evf a 0 of (x, l0) \<Rightarrow>
           case evA evf a 1 of (y, l1) \<Rightarrow>
             (VBool (num_lt (toNumber h x) (toNumber h y)), l0 @ l1)))"

definition fn_gte :: "host \<Rightarrow> evaluator \<Rightarrow> Expr list \<Rightarrow> result" where
  "fn_gte h evf a =
     (case ck a 2 ''gte'' of
        Some e \<Rightarrow> (VStr e, [])
      | None \<Rightarrow>
          (case evA evf a 0 of (x, l0) \<Rightarrow>
           case evA evf a 1 of (y, l1) \<Rightarrow>
             (VBool (num_le (toNumber h y) (toNumber h x)), l0 @ l1)))"

definition fn_lte :: "host \<Rightarrow> evaluator \<Rightarrow> Expr list \<Rightarrow> result" where
  "fn_lte h evf a =
     (case ck a 2 ''lte'' of
        Some e \<Rightarrow> (VStr e, [])
      | None \<Rightarrow>
          (case evA evf a 0 of (x, l0) \<Rightarrow>
           case evA evf a 1 of (y, l1) \<Rightarrow>
             (VBool (num_le (toNumber h x) (toNumber h y)), l0 @ l1)))"

text \<open>
  \<^verbatim>\<open>and\<close>: \<^verbatim>\<open>let r = true; for (const e of a) { r = ev(e, ctx); if (!truthy(r)) return r; }
  return r;\<close> and \<^verbatim>\<open>or\<close> likewise from \<^verbatim>\<open>false\<close>. Neither calls \<^verbatim>\<open>ck\<close>.
\<close>

fun and_loop :: "evaluator \<Rightarrow> Value \<Rightarrow> Expr list \<Rightarrow> result" where
  "and_loop evf r [] = (r, [])"
| "and_loop evf r (e # es) =
     (case evf e of (r', l0) \<Rightarrow>
        if \<not> truthy r' then (r', l0)
        else (case and_loop evf r' es of (v, l1) \<Rightarrow> (v, l0 @ l1)))"

definition fn_and :: "evaluator \<Rightarrow> Expr list \<Rightarrow> result" where
  "fn_and evf a = and_loop evf (VBool True) a"

fun or_loop :: "evaluator \<Rightarrow> Value \<Rightarrow> Expr list \<Rightarrow> result" where
  "or_loop evf r [] = (r, [])"
| "or_loop evf r (e # es) =
     (case evf e of (r', l0) \<Rightarrow>
        if truthy r' then (r', l0)
        else (case or_loop evf r' es of (v, l1) \<Rightarrow> (v, l0 @ l1)))"

definition fn_or :: "evaluator \<Rightarrow> Expr list \<Rightarrow> result" where
  "fn_or evf a = or_loop evf (VBool False) a"

definition fn_not :: "evaluator \<Rightarrow> Expr list \<Rightarrow> result" where
  "fn_not evf a =
     (case ck a 1 ''not'' of
        Some e \<Rightarrow> (VStr e, [])
      | None \<Rightarrow> (case evA evf a 0 of (x, l0) \<Rightarrow> (VBool (\<not> truthy x), l0)))"

text \<open>The three string transforms call \<^verbatim>\<open>ev(a[0], ctx)\<close> with no argument check.\<close>

definition fn_lowercase :: "host \<Rightarrow> evaluator \<Rightarrow> Expr list \<Rightarrow> result" where
  "fn_lowercase h evf a =
     (case evA evf a 0 of (x, l0) \<Rightarrow> (VStr (toLowerCase h (toStr h x)), l0))"

definition fn_uppercase :: "host \<Rightarrow> evaluator \<Rightarrow> Expr list \<Rightarrow> result" where
  "fn_uppercase h evf a =
     (case evA evf a 0 of (x, l0) \<Rightarrow> (VStr (toUpperCase h (toStr h x)), l0))"

definition fn_trim :: "host \<Rightarrow> evaluator \<Rightarrow> Expr list \<Rightarrow> result" where
  "fn_trim h evf a =
     (case evA evf a 0 of (x, l0) \<Rightarrow> (VStr (trim h (toStr h x)), l0))"

definition fn_truncate :: "host \<Rightarrow> evaluator \<Rightarrow> Expr list \<Rightarrow> result" where
  "fn_truncate h evf a =
     (case ck a 2 ''truncate'' of
        Some e \<Rightarrow> (VStr e, [])
      | None \<Rightarrow>
          (case evA evf a 0 of (x, l0) \<Rightarrow>
           case evA evf a 1 of (y, l1) \<Rightarrow>
           case (if 2 < length a
                 then (case evA evf a 2 of (z, l2) \<Rightarrow> (toStr h z, l2))
                 else (''...'', [])) of (suffix, l2) \<Rightarrow>
             (let s = toStr h x; n = toNumber h y
              in (VStr (if num_lt n (Fin (of_nat (length s))) then sliceTo s n @ suffix else s),
                  l0 @ l1 @ l2))))"

definition fn_replace :: "host \<Rightarrow> evaluator \<Rightarrow> Expr list \<Rightarrow> result" where
  "fn_replace h evf a =
     (case ck a 3 ''replace'' of
        Some e \<Rightarrow> (VStr e, [])
      | None \<Rightarrow>
          (case evA evf a 0 of (x, l0) \<Rightarrow>
           case evA evf a 1 of (y, l1) \<Rightarrow>
           case evA evf a 2 of (z, l2) \<Rightarrow>
             (VStr (join_str (toStr h z) (split h (toStr h x) (toStr h y))), l0 @ l1 @ l2)))"

text \<open>
  \<^verbatim>\<open>limit\<close>: \<^verbatim>\<open>r.slice(0, n < 0 ? 0 : n)\<close>, where an \<^verbatim>\<open>undefined\<close> end keeps the whole
  array.
\<close>

definition fn_limit :: "host \<Rightarrow> evaluator \<Rightarrow> Expr list \<Rightarrow> result" where
  "fn_limit h evf a =
     (case ck a 2 ''limit'' of
        Some e \<Rightarrow> (VStr e, [])
      | None \<Rightarrow>
          (case evA evf a 0 of (r, l0) \<Rightarrow>
           case evA evf a 1 of (n, l1) \<Rightarrow>
             ((case r of
                 VArr xs \<Rightarrow>
                   VArr (if num_lt (toNumber h n) (Fin 0) then sliceTo xs (Fin 0)
                         else if n = VUndef then xs
                         else sliceTo xs (toNumber h n))
               | _ \<Rightarrow> r),
              l0 @ l1)))"

definition fn_first :: "evaluator \<Rightarrow> Expr list \<Rightarrow> result" where
  "fn_first evf a =
     (case ck a 1 ''first'' of
        Some e \<Rightarrow> (VStr e, [])
      | None \<Rightarrow>
          (case evA evf a 0 of (r, l0) \<Rightarrow>
             ((case r of VArr xs \<Rightarrow> (if xs = [] then VUndef else xs ! 0) | _ \<Rightarrow> r), l0)))"

definition fn_last :: "evaluator \<Rightarrow> Expr list \<Rightarrow> result" where
  "fn_last evf a =
     (case ck a 1 ''last'' of
        Some e \<Rightarrow> (VStr e, [])
      | None \<Rightarrow>
          (case evA evf a 0 of (r, l0) \<Rightarrow>
             ((case r of
                 VArr xs \<Rightarrow> (if xs = [] then VUndef else xs ! (length xs - 1))
               | _ \<Rightarrow> r), l0)))"

definition fn_length :: "host \<Rightarrow> evaluator \<Rightarrow> Expr list \<Rightarrow> result" where
  "fn_length h evf a =
     (case ck a 1 ''length'' of
        Some e \<Rightarrow> (VStr e, [])
      | None \<Rightarrow>
          (case evA evf a 0 of (v, l0) \<Rightarrow>
             (VNum (Fin (of_nat (case v of VArr xs \<Rightarrow> length xs | _ \<Rightarrow> length (toStr h v)))),
              l0)))"

text \<open>\<^verbatim>\<open>join\<close> evaluates its separator only when the first operand is an array.\<close>

definition fn_join :: "host \<Rightarrow> evaluator \<Rightarrow> Expr list \<Rightarrow> result" where
  "fn_join h evf a =
     (case ck a 2 ''join'' of
        Some e \<Rightarrow> (VStr e, [])
      | None \<Rightarrow>
          (case evA evf a 0 of (r, l0) \<Rightarrow>
             (case r of
                VArr xs \<Rightarrow>
                  (case evA evf a 1 of (sep, l1) \<Rightarrow>
                     (VStr (join_str (toStr h sep)
                        (map (\<lambda>x. if x = VUndef \<or> x = VNull then [] else toStr h x) xs)),
                      l0 @ l1))
              | _ \<Rightarrow> (VStr (toStr h r), l0))))"

definition fn_default :: "evaluator \<Rightarrow> Expr list \<Rightarrow> result" where
  "fn_default evf a =
     (case ck a 2 ''default'' of
        Some e \<Rightarrow> (VStr e, [])
      | None \<Rightarrow>
          (case evA evf a 0 of (v, l0) \<Rightarrow>
             if truthy v then (v, l0)
             else (case evA evf a 1 of (w, l1) \<Rightarrow> (w, l0 @ l1))))"

text \<open>The table \<^verbatim>\<open>fns\<close> as the module creates it.\<close>

definition fns :: "host \<Rightarrow> (string \<times> (evaluator \<Rightarrow> Expr list \<Rightarrow> result)) list" where
  "fns h =
     [(''eq'', fn_eq h), (''ne'', fn_ne h), (''gt'', fn_gt h), (''lt'', fn_lt h),
      (''gte'', fn_gte h), (''lte'', fn_lte h),
      (''and'', fn_and), (''or'', fn_or), (''not'', fn_not),
      (''lowercase'', fn_lowercase h), (''uppercase'', fn_uppercase h), (''trim'', fn_trim h),
      (''truncate'', fn_truncate h), (''replace'', fn_replace h),
      (''limit'', fn_limit h), (''first'', fn_first), (''last'', fn_last),
      (''length'', fn_length h), (''join'', fn_join h),
      (''default'', fn_default)]"

text \<open>
  \<^verbatim>\<open>registerFunction(name, fn)\<close> stores \<^verbatim>\<open>(ctx, ...a) => fn(...a.map((e) => ev(e, ctx)))\<close>
  under \<open>name\<close>, replacing a built-in of that name. The registrations made so far are a
  map from names to the registered functions, taken as pure functions of the evaluated
  arguments.
\<close>

type_synonym registry = "string \<Rightarrow> (Value list \<Rightarrow> Value) option"

definition custom :: "(Value list \<Rightarrow> Value) \<Rightarrow> evaluator \<Rightarrow> Expr list \<Rightarrow> result" where
  "custom g evf a = (let rs = map evf a in (g (map fst rs), concat (map snd rs)))"

text \<open>
  \<^verbatim>\<open>const fn = fns[e.fn]; if (!fn) return `[Error: unknown ${e.fn}()]`; return fn(ctx, ...)\<close>
  on the argument list \<open>a\<close>. (The lookup also finds the members that the table object
  inherits from the runtime's \<^verbatim>\<open>Object.prototype\<close>, such as \<^verbatim>\<open>constructor\<close> and
  \<^verbatim>\<open>toString\<close>; calls of those names are outside this model, which treats them as
  unknown functions.)
\<close>

definition call :: "host \<Rightarrow> registry \<Rightarrow> evaluator \<Rightarrow> string \<Rightarrow> Expr list \<Rightarrow> result" where
  "call h reg evf name a =
     (case reg name of
        Some g \<Rightarrow> custom g evf a
      | None \<Rightarrow>
          (case map_of (fns h) name of
             Some b \<Rightarrow> b evf a
           | None \<Rightarrow> (VStr (''[Error: unknown '' @ name @ ''()]''), [])))"

subsection \<open>The evaluator\<close>

text \<open>
  A built-in applies the evaluator to its own arguments only; this is what makes the
  recursion of \<^verbatim>\<open>ev\<close> through the table well-founded.
\<close>

lemma evA_cong: "(\<And>e. e \<in> set a \<Longrightarrow> evf e = evf' e) \<Longrightarrow> evA evf a i = evA evf' a i"
  by (simp add: evA_def)

lemma and_loop_cong: "(\<And>e. e \<in> set a \<Longrightarrow> evf e = evf' e) \<Longrightarrow> and_loop evf r a = and_loop evf' r a"
  by (induction a arbitrary: r) (auto split: prod.splits)

lemma or_loop_cong: "(\<And>e. e \<in> set a \<Longrightarrow> evf e = evf' e) \<Longrightarrow> or_loop evf r a = or_loop evf' r a"
  by (induction a arbitrary: r) (auto split: prod.splits)

lemma custom_cong: "(\<And>e. e \<in> set a \<Longrightarrow> evf e = evf' e) \<Longrightarrow> custom g evf a = custom g evf' a"
  by (simp add: custom_def cong: map_cong)

lemma fns_cong:
  assumes "\<And>e. e \<in> set a \<Longrightarrow> evf e = evf' e" and "map_of (fns h) name = Some b"
  shows "b evf a = b evf' a"
proof -
  have arg: "\<And>i. evA evf a i = evA evf' a i" using assms(1) by (rule evA_cong)
  have conj_loop: "\<And>r. and_loop evf r a = and_loop evf' r a" using assms(1) by (rule and_loop_cong)
  have disj_loop: "\<And>r. or_loop evf r a = or_loop evf' r a" using assms(1) by (rule or_loop_cong)
  have E_eq: "fn_eq h evf a = fn_eq h evf' a" unfolding fn_eq_def arg ..
  have E_ne: "fn_ne h evf a = fn_ne h evf' a" unfolding fn_ne_def arg ..
  have E_gt: "fn_gt h evf a = fn_gt h evf' a" unfolding fn_gt_def arg ..
  have E_lt: "fn_lt h evf a = fn_lt h evf' a" unfolding fn_lt_def arg ..
  have E_gte: "fn_gte h evf a = fn_gte h evf' a" unfolding fn_gte_def arg ..
  have E_lte: "fn_lte h evf a = fn_lte h evf' a" unfolding fn_lte_def arg ..
  have E_not: "fn_not evf a = fn_not evf' a" unfolding fn_not_def arg ..
  have E_lowercase: "fn_lowercase h evf a = fn_lowercase h evf' a" unfolding fn_lowercase_def arg ..
  have E_uppercase: "fn_uppercase h evf a = fn_uppercase h evf' a" unfolding fn_uppercase_def arg ..
  have E_trim: "fn_trim h evf a = fn_trim h evf' a" unfolding fn_trim_def arg ..
  have E_truncate: "fn_truncate h evf a = fn_truncate h evf' a" unfolding fn_truncate_def arg ..
  have E_replace: "fn_replace h evf a = fn_replace h evf' a" unfolding fn_replace_def arg ..
  have E_limit: "fn_limit h evf a = fn_limit h evf' a" unfolding fn_limit_def arg ..
  have E_first: "fn_first evf a = fn_first evf' a" unfolding fn_first_def arg ..
  have E_last: "fn_last evf a = fn_last evf' a" unfolding fn_last_def arg ..
  have E_length: "fn_length h evf a = fn_length h evf' a" unfolding fn_length_def arg ..
  have E_join: "fn_join h evf a = fn_join h evf' a" unfolding fn_join_def arg ..
  have E_default: "fn_default evf a = fn_default evf' a" unfolding fn_default_def arg ..
  have E_and: "fn_and evf a = fn_and evf' a" unfolding fn_and_def conj_loop ..
  have E_or: "fn_or evf a = fn_or evf' a" unfolding fn_or_def disj_loop ..
  from assms(2) have "(name, b) \<in> set (fns h)" by (rule map_of_SomeD)
  then show ?thesis
    unfolding fns_def
    by (auto simp: E_eq E_ne E_gt E_lt E_gte E_lte E_not E_lowercase E_uppercase E_trim E_truncate E_replace E_limit E_first E_last E_length E_join E_default E_and E_or)
qed

lemma call_cong [fundef_cong]:
  assumes "a = a'" and "name = name'" and "\<And>e. e \<in> set a' \<Longrightarrow> evf e = evf' e"
  shows "call h reg evf name a = call h reg evf' name' a'"
proof -
  have 1: "custom g evf a' = custom g evf' a'" for g
    using assms(3) by (rule custom_cong)
  have 2: "b evf a' = b evf' a'" if "map_of (fns h) name' = Some b" for b
    using assms(3) that by (rule fns_cong)
  show ?thesis
    unfolding call_def assms(1,2) by (simp add: 1 2 split: option.splits)
qed

text \<open>
  \<^verbatim>\<open>ev(e, ctx)\<close>. The second component lists the expressions \<^verbatim>\<open>ev\<close> was called
  on, the expression itself first.
\<close>

fun ev :: "host \<Rightarrow> registry \<Rightarrow> Expr \<Rightarrow> TemplateData \<Rightarrow> result" where
  "ev h reg (L v) ctx = (v, [L v])"
| "ev h reg (V path) ctx = (walk (VObj ctx) path, [V path])"
| "ev h reg (C f a) ctx =
     (case call h reg (\<lambda>e. ev h reg e ctx) f a of (v, lg) \<Rightarrow> (v, C f a # lg))"
| "ev h reg (P l f a) ctx =
     (case call h reg (\<lambda>e. ev h reg e ctx) f (l # a) of (v, lg) \<Rightarrow> (v, P l f a # lg))"

section \<open>The renderer\<close>

text \<open>
  \<^verbatim>\<open>esc\<close>: five global replacements, applied in the order of the source (the
  ampersand first, so the entities written by the later ones are not escaped again).
\<close>

definition replaceAll :: "char \<Rightarrow> string \<Rightarrow> string \<Rightarrow> string" where
  "replaceAll c r s = concat (map (\<lambda>x. if x = c then r else [x]) s)"

definition esc :: "string \<Rightarrow> string" where
  "esc s =
     replaceAll (CHR 0x27) ''&#39;''
       (replaceAll (CHR 0x22) ''&quot;''
         (replaceAll CHR ''>'' ''&gt;''
           (replaceAll CHR ''<'' ''&lt;''
             (replaceAll CHR ''&'' ''&amp;'' s))))"

text \<open>
  Nodes: text, interpolation (with the raw flag), conditional (branches and an optional
  else-body) and loop (source, element name, optional index name, body, optional
  else-body).
\<close>

datatype Node =
    T string
  | I Expr bool
  | F "(Expr \<times> Node list) list" "Node list option"
  | E Expr string "string option" "Node list" "Node list option"

text \<open>
  The assignment \<^verbatim>\<open>obj[k] = v\<close> on a plain object. The name \<^verbatim>\<open>__proto__\<close>, unless the
  object owns a property of that name, is the accessor the object inherits from
  \<^verbatim>\<open>Object.prototype\<close>: the assignment then runs that setter and creates no own
  property.
\<close>

definition assign :: "TemplateData \<Rightarrow> string \<Rightarrow> Value \<Rightarrow> TemplateData" where
  "assign obj k v =
     (if k = ''__proto__'' \<and> map_of obj k = None then obj else AList.update k v obj)"

text \<open>
  The context of one iteration:
  \<^verbatim>\<open>const local = { ...ctx, [n.as]: arr[i] }; if (n.idx) local[n.idx] = i;\<close>
  The spread copies the own properties and the computed key defines an own property;
  an index name that is the empty string is falsy and binds nothing.
\<close>

definition local_ctx :: "TemplateData \<Rightarrow> string \<Rightarrow> string option \<Rightarrow> Value list \<Rightarrow> nat \<Rightarrow> TemplateData" where
  "local_ctx ctx as idx arr i =
     (let local = AList.update as (arr ! i) ctx
      in case idx of
           None \<Rightarrow> local
         | Some ix \<Rightarrow> if ix \<noteq> [] then assign local ix (VNum (Fin (of_nat i))) else local)"

text \<open>\<^verbatim>\<open>for (let i = lo; i < n; i++) out += f(i)\<close>\<close>

function for_loop :: "nat \<Rightarrow> nat \<Rightarrow> (nat \<Rightarrow> string) \<Rightarrow> string" where
  "for_loop i n f = (if i < n then f i @ for_loop (Suc i) n f else [])"
  by pat_completeness auto
termination
  by (relation "measure (\<lambda>(i, n, f). n - i)") auto

declare for_loop.simps [simp del]

lemma for_loop_cong [fundef_cong]:
  assumes "i = i'" and "n = n'" and "\<And>j. i' \<le> j \<Longrightarrow> j < n' \<Longrightarrow> f j = g j"
  shows "for_loop i n f = for_loop i' n' g"
  unfolding assms(1,2) using assms(3)
proof (induction i' n' f rule: for_loop.induct)
  case (1 i n f)
  show ?case
  proof (cases "i < n")
    case True
    have "for_loop (Suc i) n f = for_loop (Suc i) n g"
      using True 1 by simp
    moreover have "f i = g i" using True 1(2) by simp
    ultimately show ?thesis
      by (simp add: for_loop.simps[of i n f] for_loop.simps[of i n g] True)
  next
    case False
    then show ?thesis by (simp add: for_loop.simps[of i n f] for_loop.simps[of i n g])
  qed
qed

text \<open>
  \<^verbatim>\<open>rn(nodes, ctx)\<close>, with the body of its loop over the nodes as \<open>rn_node\<close> and the
  search for the first truthy branch as \<open>rn_branches\<close>.
\<close>

function (sequential) rn :: "host \<Rightarrow> registry \<Rightarrow> Node list \<Rightarrow> TemplateData \<Rightarrow> string"
  and rn_node :: "host \<Rightarrow> registry \<Rightarrow> Node \<Rightarrow> TemplateData \<Rightarrow> string"
  and rn_branches :: "host \<Rightarrow> registry \<Rightarrow> (Expr \<times> Node list) list \<Rightarrow> Node list option \<Rightarrow> TemplateData \<Rightarrow> string"
where
  "rn h reg [] ctx = []"
| "rn h reg (n # ns) ctx = rn_node h reg n ctx @ rn h reg ns ctx"
| "rn_node h reg (T val) ctx = val"
| "rn_node h reg (I expr raw) ctx =
     (case fst (ev h reg expr ctx) of
        VArr xs \<Rightarrow> ''[Error: use #each for arrays]''
      | VObj kvs \<Rightarrow> ''[Error: cannot render object]''
      | v \<Rightarrow> (let s = (if nullish v then [] else toStr h v) in if raw then s else esc s))"
| "rn_node h reg (F branches els) ctx = rn_branches h reg branches els ctx"
| "rn_node h reg (E arr as idx body els) ctx =
     (case fst (ev h reg arr ctx) of
        VArr xs \<Rightarrow>
          (if length xs = 0 \<and> els \<noteq> None
           then (case els of Some eb \<Rightarrow> rn h reg eb ctx | None \<Rightarrow> [])
           else for_loop 0 (length xs) (\<lambda>i. rn h reg body (local_ctx ctx as idx xs i)))
      | _ \<Rightarrow> ''[Error: #each needs array]'')"
| "rn_branches h reg [] els ctx = (case els of Some eb \<Rightarrow> rn h reg eb ctx | None \<Rightarrow> [])"
| "rn_branches h reg ((cond, body) # bs) els ctx =
     (if truthy (fst (ev h reg cond ctx)) then rn h reg body ctx
      else rn_branches h reg bs els ctx)"

  by pat_completeness auto
termination
  by (relation "measure (\<lambda>x. case x of
        Inl (h, reg, ns, ctx) \<Rightarrow> size_list size ns
      | Inr (Inl (h, reg, n, ctx)) \<Rightarrow> size n
      | Inr (Inr (h, reg, bs, els, ctx)) \<Rightarrow>
          size_list (size_prod (\<lambda>_. 0) (size_list size)) bs + size_option (size_list size) els)")
    auto

section \<open>Properties of the evaluator\<close>

lemma walk_undef: "walk VUndef ks = VUndef"
  by (cases ks) (simp_all add: nullish_def)

lemma walk_append: "walk v (ks @ ks') = walk (walk v ks) ks'"
  by (induction ks arbitrary: v) (simp_all add: walk_undef)

lemma has_own_only:
  "k \<noteq> ''length'' \<Longrightarrow> indexOf k = None \<Longrightarrow> has v k = (\<exists>kvs. v = VObj kvs \<and> k \<in> fst ` set kvs)"
  by (cases v) (auto simp: map_of_eq_None_iff)

text \<open>
  Claim C1. A variable path is resolved segment by segment from the context: the value of
  the path \<open>ks @ [k]\<close> is obtained from the value \<open>u\<close> of the path \<open>ks\<close> by one step,
  which yields \<^verbatim>\<open>undefined\<close> when \<open>u\<close> is \<^verbatim>\<open>null\<close> or \<^verbatim>\<open>undefined\<close> or does not own
  \<open>k\<close>, and the own property otherwise. Once a step fails, the whole path, however it
  continues, is \<^verbatim>\<open>undefined\<close> (the value, not an error string). The names
  \<^verbatim>\<open>constructor\<close>, \<^verbatim>\<open>__proto__\<close> and \<^verbatim>\<open>hasOwnProperty\<close> are owned by a value only
  when it is an object that has them among its own keys, and a name that is not a key of
  the context resolves to \<^verbatim>\<open>undefined\<close>.
\<close>

theorem variable_path_resolution:
  "fst (ev h reg (V (ks @ [k])) ctx) =
     (let u = fst (ev h reg (V ks) ctx)
      in if nullish u \<or> \<not> has u k then VUndef else getProp u k)
   \<and> (nullish (fst (ev h reg (V ks) ctx)) \<or> \<not> has (fst (ev h reg (V ks) ctx)) k
        \<longrightarrow> fst (ev h reg (V (ks @ k # ks')) ctx) = VUndef)
   \<and> (k \<in> {''constructor'', ''__proto__'', ''hasOwnProperty''}
        \<longrightarrow> has v k = (\<exists>kvs. v = VObj kvs \<and> k \<in> fst ` set kvs))
   \<and> (k \<notin> fst ` set ctx \<longrightarrow> fst (ev h reg (V (k # ks')) ctx) = VUndef)"
proof (intro conjI impI)
  show "fst (ev h reg (V (ks @ [k])) ctx) =
     (let u = fst (ev h reg (V ks) ctx)
      in if nullish u \<or> \<not> has u k then VUndef else getProp u k)"
    by (simp add: walk_append Let_def)
next
  assume "nullish (fst (ev h reg (V ks) ctx)) \<or> \<not> has (fst (ev h reg (V ks) ctx)) k"
  then have "walk (walk (VObj ctx) ks) (k # ks') = VUndef" by simp
  then show "fst (ev h reg (V (ks @ k # ks')) ctx) = VUndef"
    by (simp add: walk_append)
next
  assume "k \<in> {''constructor'', ''__proto__'', ''hasOwnProperty''}"
  then have "k \<noteq> ''length''" and "indexOf k = None"
    by (auto simp: indexOf_def isDigit_def)
  then show "has v k = (\<exists>kvs. v = VObj kvs \<and> k \<in> fst ` set kvs)"
    by (rule has_own_only)
next
  assume "k \<notin> fst ` set ctx"
  then have "map_of ctx k = None" by (simp add: map_of_eq_None_iff)
  then show "fst (ev h reg (V (k # ks')) ctx) = VUndef" by simp
qed

text \<open>
  At the context \<^verbatim>\<open>{a: {b: "x"}}\<close>: \<^verbatim>\<open>a.constructor.name\<close> is \<^verbatim>\<open>undefined\<close>,
  \<^verbatim>\<open>a.b\<close> is \<^verbatim>\<open>"x"\<close>, and the empty object does not own \<^verbatim>\<open>__proto__\<close>.
\<close>

theorem variable_path_resolution_witness:
  "\<not> has (fst (ev sampleHost Map.empty (V [''a'']) [(''a'', VObj [(''b'', VStr ''x'')])])) ''constructor''
   \<and> fst (ev sampleHost Map.empty (V ([''a''] @ ''constructor'' # [''name'']))
          [(''a'', VObj [(''b'', VStr ''x'')])]) = VUndef
   \<and> fst (ev sampleHost Map.empty (V ([''a''] @ [''b''])) [(''a'', VObj [(''b'', VStr ''x'')])])
       = VStr ''x''
   \<and> \<not> has (VObj []) ''__proto__''
   \<and> fst (ev sampleHost Map.empty (V [''constructor''])
          [(''a'', VObj [(''b'', VStr ''x'')])]) = VUndef"
  using variable_path_resolution [of sampleHost Map.empty "[''a'']" "''constructor''"
      "[(''a'', VObj [(''b'', VStr ''x'')])]" "[''name'']" "VObj []"]
    variable_path_resolution [of sampleHost Map.empty "[''a'']" "''b''"
      "[(''a'', VObj [(''b'', VStr ''x'')])]" "[]" "VObj []"]
    variable_path_resolution [of sampleHost Map.empty "[''a'']" "''__proto__''"
      "[(''a'', VObj [(''b'', VStr ''x'')])]" "[]" "VObj []"]
  by (simp add: nullish_def)

text \<open>
  Claim C6. A pipe evaluates to the value of the call of the same function on the
  left-hand expression followed by the pipe's arguments, whatever the function name is
  (registered, built-in or unknown), and the two evaluate the same expressions below the
  top node.
\<close>

theorem pipe_is_call:
  "fst (ev h reg (P l f a) ctx) = fst (ev h reg (C f (l # a)) ctx)
   \<and> tl (snd (ev h reg (P l f a) ctx)) = tl (snd (ev h reg (C f (l # a)) ctx))"
  by (simp split: prod.splits)

lemma and_loop_first_falsy:
  assumes "\<forall>x \<in> set as. truthy (fst (evf x))" and "\<not> truthy (fst (evf e))"
  shows "and_loop evf r (as @ e # bs) = (fst (evf e), concat (map (\<lambda>x. snd (evf x)) (as @ [e])))"
  using assms by (induction as arbitrary: r) (auto split: prod.splits)

lemma and_loop_all_truthy:
  assumes "\<forall>x \<in> set a. truthy (fst (evf x))"
  shows "and_loop evf r a =
    (if a = [] then r else fst (evf (last a)), concat (map (\<lambda>x. snd (evf x)) a))"
  using assms by (induction a arbitrary: r) (auto split: prod.splits)

lemma or_loop_first_truthy:
  assumes "\<forall>x \<in> set as. \<not> truthy (fst (evf x))" and "truthy (fst (evf e))"
  shows "or_loop evf r (as @ e # bs) = (fst (evf e), concat (map (\<lambda>x. snd (evf x)) (as @ [e])))"
  using assms by (induction as arbitrary: r) (auto split: prod.splits)

lemma or_loop_all_falsy:
  assumes "\<forall>x \<in> set a. \<not> truthy (fst (evf x))"
  shows "or_loop evf r a =
    (if a = [] then r else fst (evf (last a)), concat (map (\<lambda>x. snd (evf x)) a))"
  using assms by (induction a arbitrary: r) (auto split: prod.splits)

lemma call_and: "reg ''and'' = None \<Longrightarrow> call h reg evf ''and'' a = and_loop evf (VBool True) a"
  by (simp add: call_def fns_def fn_and_def)

lemma call_or: "reg ''or'' = None \<Longrightarrow> call h reg evf ''or'' a = or_loop evf (VBool False) a"
  by (simp add: call_def fns_def fn_or_def)

text \<open>
  Claim C4. Unless a registration has replaced them, \<^verbatim>\<open>and\<close> and \<^verbatim>\<open>or\<close> evaluate
  their arguments from left to right. \<^verbatim>\<open>and\<close> returns the value of the first falsy
  argument, and the expressions evaluated are those of the arguments up to and including
  that one; when every argument is truthy it returns the value of the last one (\<^verbatim>\<open>true\<close>
  when there is none). \<^verbatim>\<open>or\<close> is the same with truthy and falsy exchanged (\<^verbatim>\<open>false\<close>
  when there is no argument). In particular \<^verbatim>\<open>and(e1, e2)\<close> with \<open>e1\<close> falsy and
  \<^verbatim>\<open>or(e1, e2)\<close> with \<open>e1\<close> truthy evaluate exactly what \<open>e1\<close> evaluates.
\<close>

theorem and_or_short_circuit:
  assumes "reg ''and'' = None" and "reg ''or'' = None"
  shows
    "((\<forall>x \<in> set as. truthy (fst (ev h reg x ctx))) \<and> \<not> truthy (fst (ev h reg e ctx)) \<longrightarrow>
        ev h reg (C ''and'' (as @ e # bs)) ctx =
          (fst (ev h reg e ctx),
           C ''and'' (as @ e # bs) # concat (map (\<lambda>x. snd (ev h reg x ctx)) (as @ [e]))))
     \<and> ((\<forall>x \<in> set a. truthy (fst (ev h reg x ctx))) \<longrightarrow>
        ev h reg (C ''and'' a) ctx =
          (if a = [] then VBool True else fst (ev h reg (last a) ctx),
           C ''and'' a # concat (map (\<lambda>x. snd (ev h reg x ctx)) a)))
     \<and> ((\<forall>x \<in> set as. \<not> truthy (fst (ev h reg x ctx))) \<and> truthy (fst (ev h reg e ctx)) \<longrightarrow>
        ev h reg (C ''or'' (as @ e # bs)) ctx =
          (fst (ev h reg e ctx),
           C ''or'' (as @ e # bs) # concat (map (\<lambda>x. snd (ev h reg x ctx)) (as @ [e]))))
     \<and> ((\<forall>x \<in> set a. \<not> truthy (fst (ev h reg x ctx))) \<longrightarrow>
        ev h reg (C ''or'' a) ctx =
          (if a = [] then VBool False else fst (ev h reg (last a) ctx),
           C ''or'' a # concat (map (\<lambda>x. snd (ev h reg x ctx)) a)))
     \<and> (\<not> truthy (fst (ev h reg e1 ctx)) \<longrightarrow>
        ev h reg (C ''and'' [e1, e2]) ctx = (fst (ev h reg e1 ctx), C ''and'' [e1, e2] # snd (ev h reg e1 ctx)))
     \<and> (truthy (fst (ev h reg e1 ctx)) \<longrightarrow>
        ev h reg (C ''or'' [e1, e2]) ctx = (fst (ev h reg e1 ctx), C ''or'' [e1, e2] # snd (ev h reg e1 ctx)))"
proof (intro conjI impI)
  assume "(\<forall>x \<in> set as. truthy (fst (ev h reg x ctx))) \<and> \<not> truthy (fst (ev h reg e ctx))"
  then show "ev h reg (C ''and'' (as @ e # bs)) ctx =
          (fst (ev h reg e ctx),
           C ''and'' (as @ e # bs) # concat (map (\<lambda>x. snd (ev h reg x ctx)) (as @ [e])))"
    using and_loop_first_falsy [of as "\<lambda>x. ev h reg x ctx" e "VBool True" bs]
    by (simp add: call_and assms(1))
next
  assume "\<forall>x \<in> set a. truthy (fst (ev h reg x ctx))"
  then show "ev h reg (C ''and'' a) ctx =
          (if a = [] then VBool True else fst (ev h reg (last a) ctx),
           C ''and'' a # concat (map (\<lambda>x. snd (ev h reg x ctx)) a))"
    using and_loop_all_truthy [of a "\<lambda>x. ev h reg x ctx" "VBool True"]
    by (simp add: call_and assms(1))
next
  assume "(\<forall>x \<in> set as. \<not> truthy (fst (ev h reg x ctx))) \<and> truthy (fst (ev h reg e ctx))"
  then show "ev h reg (C ''or'' (as @ e # bs)) ctx =
          (fst (ev h reg e ctx),
           C ''or'' (as @ e # bs) # concat (map (\<lambda>x. snd (ev h reg x ctx)) (as @ [e])))"
    using or_loop_first_truthy [of as "\<lambda>x. ev h reg x ctx" e "VBool False" bs]
    by (simp add: call_or assms(2))
next
  assume "\<forall>x \<in> set a. \<not> truthy (fst (ev h reg x ctx))"
  then show "ev h reg (C ''or'' a) ctx =
          (if a = [] then VBool False else fst (ev h reg (last a) ctx),
           C ''or'' a # concat (map (\<lambda>x. snd (ev h reg x ctx)) a))"
    using or_loop_all_falsy [of a "\<lambda>x. ev h reg x ctx" "VBool False"]
    by (simp add: call_or assms(2))
next
  assume "\<not> truthy (fst (ev h reg e1 ctx))"
  then show "ev h reg (C ''and'' [e1, e2]) ctx =
      (fst (ev h reg e1 ctx), C ''and'' [e1, e2] # snd (ev h reg e1 ctx))"
    by (cases "ev h reg e1 ctx") (simp add: call_and assms(1))
next
  assume "truthy (fst (ev h reg e1 ctx))"
  then show "ev h reg (C ''or'' [e1, e2]) ctx =
      (fst (ev h reg e1 ctx), C ''or'' [e1, e2] # snd (ev h reg e1 ctx))"
    by (cases "ev h reg e1 ctx") (simp add: call_or assms(2))
qed

text \<open>
  With no registration: \<^verbatim>\<open>and(null, boom())\<close> and \<^verbatim>\<open>or("t", boom())\<close> never evaluate
  the call of the unknown \<^verbatim>\<open>boom\<close>; \<^verbatim>\<open>and(true, 0, x)\<close> stops at \<^verbatim>\<open>0\<close>.
\<close>

theorem and_or_short_circuit_witness:
  "ev sampleHost Map.empty (C ''and'' [L VNull, C ''boom'' []]) [] = (VNull, [C ''and'' [L VNull, C ''boom'' []], L VNull])
   \<and> ev sampleHost Map.empty (C ''or'' [L (VStr ''t''), C ''boom'' []]) [] = (VStr ''t'', [C ''or'' [L (VStr ''t''), C ''boom'' []], L (VStr ''t'')])
   \<and> ev sampleHost Map.empty (C ''and'' ([L (VBool True)] @ L (VNum (Fin 0)) # [V [''x'']])) []
       = (VNum (Fin 0), [C ''and'' [L (VBool True), L (VNum (Fin 0)), V [''x'']], L (VBool True), L (VNum (Fin 0))])
   \<and> ev sampleHost Map.empty (C ''and'' [L (VBool True), L (VStr ''z'')]) [] = (VStr ''z'', [C ''and'' [L (VBool True), L (VStr ''z'')], L (VBool True), L (VStr ''z'')])
   \<and> ev sampleHost Map.empty (C ''or'' ([L VNull] @ L (VStr ''y'') # [V [''x'']])) []
       = (VStr ''y'', [C ''or'' [L VNull, L (VStr ''y''), V [''x'']], L VNull, L (VStr ''y'')])
   \<and> ev sampleHost Map.empty (C ''or'' [L VNull, L (VStr [])]) [] = (VStr [], [C ''or'' [L VNull, L (VStr [])], L VNull, L (VStr [])])"
  using and_or_short_circuit [of Map.empty "[L (VBool True)]" sampleHost "[]" "L (VNum (Fin 0))" "[V [''x'']]" "[L (VBool True), L (VStr ''z'')]" "L VNull" "C ''boom'' []"]
    and_or_short_circuit [of Map.empty "[L VNull]" sampleHost "[]" "L (VStr ''y'')" "[V [''x'']]" "[L VNull, L (VStr [])]" "L (VStr ''t'')" "C ''boom'' []"]
  by simp

text \<open>
  The built-ins that call \<^verbatim>\<open>ck\<close>, each with the count it passes.
\<close>

definition checked :: "(string \<times> nat) list" where
  "checked =
     [(''eq'', 2), (''ne'', 2), (''gt'', 2), (''lt'', 2), (''gte'', 2), (''lte'', 2),
      (''not'', 1), (''truncate'', 2), (''replace'', 3), (''limit'', 2),
      (''first'', 1), (''last'', 1), (''length'', 1), (''join'', 2), (''default'', 2)]"

lemma dec_digit: "n < 10 \<Longrightarrow> dec n = [''0123456789'' ! n]"
  by (simp add: dec.simps [of n])

lemma dec_small: "dec 0 = ''0''" "dec 1 = ''1''" "dec 2 = ''2''" "dec 3 = ''3''"
  by (simp_all add: dec_digit)

lemma call_checked:
  assumes "reg name = None" and "(name, n) \<in> set checked" and "length a < n"
  shows "call h reg evf name a = (VStr (''[Error: '' @ name @ ''() needs '' @ dec n @ '' args]''), [])"
proof -
  from assms(2) have
    "name = ''eq'' \<and> n = 2 \<or> name = ''ne'' \<and> n = 2 \<or> name = ''gt'' \<and> n = 2
     \<or> name = ''lt'' \<and> n = 2 \<or> name = ''gte'' \<and> n = 2 \<or> name = ''lte'' \<and> n = 2
     \<or> name = ''not'' \<and> n = 1 \<or> name = ''truncate'' \<and> n = 2 \<or> name = ''replace'' \<and> n = 3
     \<or> name = ''limit'' \<and> n = 2 \<or> name = ''first'' \<and> n = 1 \<or> name = ''last'' \<and> n = 1
     \<or> name = ''length'' \<and> n = 1 \<or> name = ''join'' \<and> n = 2 \<or> name = ''default'' \<and> n = 2"
    unfolding checked_def by simp
  then show ?thesis
    using assms(1,3)
    apply (elim disjE conjE)
                  apply (simp_all only:)
                  apply (simp add: call_def fns_def fn_eq_def ck_def)
                 apply (simp add: call_def fns_def fn_ne_def ck_def)
                apply (simp add: call_def fns_def fn_gt_def ck_def)
               apply (simp add: call_def fns_def fn_lt_def ck_def)
              apply (simp add: call_def fns_def fn_gte_def ck_def)
             apply (simp add: call_def fns_def fn_lte_def ck_def)
            apply (simp add: call_def fns_def fn_not_def ck_def)
           apply (simp add: call_def fns_def fn_truncate_def ck_def)
          apply (simp add: call_def fns_def fn_replace_def ck_def)
         apply (simp add: call_def fns_def fn_limit_def ck_def)
        apply (simp add: call_def fns_def fn_first_def ck_def)
       apply (simp add: call_def fns_def fn_last_def ck_def)
      apply (simp add: call_def fns_def fn_length_def ck_def)
     apply (simp add: call_def fns_def fn_join_def ck_def)
    apply (simp add: call_def fns_def fn_default_def ck_def)
    done
qed

text \<open>
  Claim C2, amended. For each of \<^verbatim>\<open>eq\<close>, \<^verbatim>\<open>ne\<close>, \<^verbatim>\<open>gt\<close>, \<^verbatim>\<open>lt\<close>, \<^verbatim>\<open>gte\<close>,
  \<^verbatim>\<open>lte\<close> (2), \<^verbatim>\<open>not\<close> (1), \<^verbatim>\<open>truncate\<close> (2), \<^verbatim>\<open>replace\<close> (3), \<^verbatim>\<open>limit\<close> (2),
  \<^verbatim>\<open>first\<close>, \<^verbatim>\<open>last\<close>, \<^verbatim>\<open>length\<close> (1), \<^verbatim>\<open>join\<close> (2) and \<^verbatim>\<open>default\<close> (2), unless a
  registration has replaced it, a call (or a pipe, whose left-hand side counts as the
  first argument) with fewer argument expressions than the count returns exactly
  \<^verbatim>\<open>[Error: <name>() needs <N> args]\<close>, and the only expression evaluated is the call
  itself: no argument is. \<^verbatim>\<open>and\<close> and \<^verbatim>\<open>or\<close> make no such check: with no argument
  \<^verbatim>\<open>and\<close> returns \<^verbatim>\<open>true\<close> and \<^verbatim>\<open>or\<close> returns \<^verbatim>\<open>false\<close>.
\<close>

theorem arity_check_before_evaluation:
  "(reg name = None \<and> (name, n) \<in> set checked \<and> length a < n \<longrightarrow>
      ev h reg (C name a) ctx =
        (VStr (''[Error: '' @ name @ ''() needs '' @ dec n @ '' args]''), [C name a]))
   \<and> (reg name = None \<and> (name, n) \<in> set checked \<and> Suc (length a) < n \<longrightarrow>
      ev h reg (P l name a) ctx =
        (VStr (''[Error: '' @ name @ ''() needs '' @ dec n @ '' args]''), [P l name a]))
   \<and> (reg ''and'' = None \<longrightarrow> ev h reg (C ''and'' []) ctx = (VBool True, [C ''and'' []]))
   \<and> (reg ''or'' = None \<longrightarrow> ev h reg (C ''or'' []) ctx = (VBool False, [C ''or'' []]))"
proof (intro conjI impI)
  assume "reg name = None \<and> (name, n) \<in> set checked \<and> length a < n"
  then have "call h reg (\<lambda>e. ev h reg e ctx) name a =
      (VStr (''[Error: '' @ name @ ''() needs '' @ dec n @ '' args]''), [])"
    by (intro call_checked) simp_all
  then show "ev h reg (C name a) ctx =
        (VStr (''[Error: '' @ name @ ''() needs '' @ dec n @ '' args]''), [C name a])"
    by simp
next
  assume "reg name = None \<and> (name, n) \<in> set checked \<and> Suc (length a) < n"
  then have "call h reg (\<lambda>e. ev h reg e ctx) name (l # a) =
      (VStr (''[Error: '' @ name @ ''() needs '' @ dec n @ '' args]''), [])"
    by (intro call_checked) simp_all
  then show "ev h reg (P l name a) ctx =
        (VStr (''[Error: '' @ name @ ''() needs '' @ dec n @ '' args]''), [P l name a])"
    by simp
next
  assume "reg ''and'' = None"
  then show "ev h reg (C ''and'' []) ctx = (VBool True, [C ''and'' []])"
    by (simp add: call_def fns_def fn_and_def)
next
  assume "reg ''or'' = None"
  then show "ev h reg (C ''or'' []) ctx = (VBool False, [C ''or'' []])"
    by (simp add: call_def fns_def fn_or_def)
qed

text \<open>
  \<^verbatim>\<open>replace("hello", "l")\<close> and \<^verbatim>\<open>items | join\<close> return the error and evaluate none of
  their operands.
\<close>

theorem arity_check_before_evaluation_witness:
  "ev sampleHost Map.empty (C ''replace'' [L (VStr ''hello''), L (VStr ''l'')]) []
     = (VStr ''[Error: replace() needs 3 args]'', [C ''replace'' [L (VStr ''hello''), L (VStr ''l'')]])
   \<and> ev sampleHost Map.empty (P (V [''items'']) ''join'' []) [(''items'', VArr [VStr ''a''])]
     = (VStr ''[Error: join() needs 2 args]'', [P (V [''items'']) ''join'' []])
   \<and> ev sampleHost Map.empty (C ''and'' []) [] = (VBool True, [C ''and'' []])
   \<and> ev sampleHost Map.empty (C ''or'' []) [] = (VBool False, [C ''or'' []])"
  using arity_check_before_evaluation [of Map.empty "''replace''" 3 "[L (VStr ''hello''), L (VStr ''l'')]" sampleHost "[]" "V []"]
    arity_check_before_evaluation [of Map.empty "''join''" 2 "[]" sampleHost "[(''items'', VArr [VStr ''a''])]" "V [''items'']"]
  by (simp add: checked_def dec_small)

text \<open>
  The claim as stated fails: \<^verbatim>\<open>and()\<close> is \<^verbatim>\<open>true\<close>, not an error, and
  \<^verbatim>\<open>lowercase()\<close> is the string \<^verbatim>\<open>undefined\<close>.
\<close>

theorem arity_check_counterexample:
  "ev sampleHost Map.empty (C ''and'' []) [] = (VBool True, [C ''and'' []])
   \<and> fst (ev sampleHost Map.empty (C ''and'' []) []) \<noteq> VStr ''[Error: and() needs 1 args]''
   \<and> ev sampleHost Map.empty (C ''lowercase'' []) [] = (VStr ''undefined'', [C ''lowercase'' []])
   \<and> fst (ev sampleHost Map.empty (C ''lowercase'' []) []) \<noteq> VStr ''[Error: lowercase() needs 1 args]''"
  by (simp add: call_def fns_def fn_and_def fn_lowercase_def evA_def sampleHost_def asciiLower_def)

lemma rn_branches_find:
  "rn_branches h reg bs els ctx =
     (case find (\<lambda>(c, b). truthy (fst (ev h reg c ctx))) bs of
        Some (c, b) \<Rightarrow> rn h reg b ctx
      | None \<Rightarrow> (case els of Some eb \<Rightarrow> rn h reg eb ctx | None \<Rightarrow> []))"
  by (induction bs) auto

lemma call_not: "reg ''not'' = None \<Longrightarrow> call h reg evf ''not'' [e] = (VBool (\<not> truthy (fst (evf e))), snd (evf e))"
  by (simp add: call_def fns_def fn_not_def ck_def evA_def split: prod.splits)

text \<open>
  Claim C3. A value is falsy exactly when it is \<^verbatim>\<open>null\<close>, \<^verbatim>\<open>undefined\<close>, \<^verbatim>\<open>false\<close>,
  zero, the empty string, not-a-number, the empty array or the object with no key; every
  non-empty array or object is truthy whatever it holds, for example \<^verbatim>\<open>{k: false}\<close>.
  A conditional renders the body of the first branch whose condition is truthy, else its
  else-body; a loop over an array with an else-body renders the else-body exactly when
  the array is falsy; \<^verbatim>\<open>not\<close> returns the negated truthiness of its operand.
  (\<^verbatim>\<open>and\<close> and \<^verbatim>\<open>or\<close> are the subject of claim C4.)
\<close>

theorem truthiness_partition:
  "(\<not> truthy v) =
      (v \<in> {VNull, VUndef, VBool False, VNum (Fin 0), VStr [], VNum NaN, VArr [], VObj []})
   \<and> (xs \<noteq> [] \<longrightarrow> truthy (VArr xs))
   \<and> (kvs \<noteq> [] \<longrightarrow> truthy (VObj kvs))
   \<and> truthy (VObj [(k, VBool False)])
   \<and> rn_node h reg (F bs els) ctx =
       (case find (\<lambda>(c, b). truthy (fst (ev h reg c ctx))) bs of
          Some (c, b) \<Rightarrow> rn h reg b ctx
        | None \<Rightarrow> (case els of Some eb \<Rightarrow> rn h reg eb ctx | None \<Rightarrow> []))
   \<and> (fst (ev h reg src ctx) = VArr xs \<longrightarrow>
        rn_node h reg (E src as idx body (Some eb)) ctx =
          (if truthy (VArr xs)
           then for_loop 0 (length xs) (\<lambda>i. rn h reg body (local_ctx ctx as idx xs i))
           else rn h reg eb ctx))
   \<and> (reg ''not'' = None \<longrightarrow>
        fst (ev h reg (C ''not'' [e]) ctx) = VBool (\<not> truthy (fst (ev h reg e ctx))))"
proof (intro conjI impI)
  show "(\<not> truthy v) =
      (v \<in> {VNull, VUndef, VBool False, VNum (Fin 0), VStr [], VNum NaN, VArr [], VObj []})"
    by (cases v) (auto simp: keys_def)
  show "truthy (VArr xs)" if "xs \<noteq> []" using that by simp
  show "truthy (VObj kvs)" if "kvs \<noteq> []" using that by (simp add: keys_def)
  show "truthy (VObj [(k, VBool False)])" by (simp add: keys_def)
  show "rn_node h reg (F bs els) ctx =
       (case find (\<lambda>(c, b). truthy (fst (ev h reg c ctx))) bs of
          Some (c, b) \<Rightarrow> rn h reg b ctx
        | None \<Rightarrow> (case els of Some eb \<Rightarrow> rn h reg eb ctx | None \<Rightarrow> []))"
    by (simp add: rn_branches_find)
  show "rn_node h reg (E src as idx body (Some eb)) ctx =
          (if truthy (VArr xs)
           then for_loop 0 (length xs) (\<lambda>i. rn h reg body (local_ctx ctx as idx xs i))
           else rn h reg eb ctx)" if "fst (ev h reg src ctx) = VArr xs"
    using that by simp
  show "fst (ev h reg (C ''not'' [e]) ctx) = VBool (\<not> truthy (fst (ev h reg e ctx)))"
    if "reg ''not'' = None"
    using that by (simp add: call_not split: prod.splits)
qed

text \<open>
  An empty array selects the else-body of a loop, an empty object the else-body of a
  conditional, and \<^verbatim>\<open>not([])\<close> is \<^verbatim>\<open>true\<close>.
\<close>

theorem truthiness_partition_witness:
  "truthy (VArr [VBool False]) \<and> truthy (VObj [(''a'', VBool False)])
   \<and> \<not> truthy (VObj []) \<and> \<not> truthy (VNum NaN)
   \<and> rn_node sampleHost Map.empty (E (V [''xs'']) ''x'' None [T ''X''] (Some [T ''none''])) [(''xs'', VArr [])] = ''none''
   \<and> rn_node sampleHost Map.empty (F [(V [''o''], [T ''yes''])] (Some [T ''no''])) [(''o'', VObj [])] = ''no''
   \<and> fst (ev sampleHost Map.empty (C ''not'' [L (VArr [])]) []) = VBool True"
  using truthiness_partition [where v = "VObj []" and xs = "[]" and h = sampleHost and reg = Map.empty
      and bs = "[(V [''o''], [T ''yes''])]" and els = "Some [T ''no'']" and ctx = "[(''o'', VObj [])]"
      and src = "L (VArr [])" and e = "L (VArr [])" and kvs = "[(''a'', VBool False)]"]
    truthiness_partition [where v = "VNum NaN" and xs = "[]" and h = sampleHost and reg = Map.empty
      and bs = "[]" and ctx = "[(''xs'', VArr [])]" and src = "V [''xs'']" and as = "''x''"
      and idx = None and body = "[T ''X'']" and eb = "[T ''none'']" and k = "''a''"]
    truthiness_partition [where xs = "[VBool False]"]
  by (simp add: nullish_def keys_def call_def fns_def fn_not_def ck_def evA_def)

section \<open>The parser\<close>

text \<open>
  \<^verbatim>\<open>compile\<close> holds the template \<open>src\<close> and a cursor \<open>pos\<close>; every parsing
  function of the model takes the cursor and returns it with its result. \<^verbatim>\<open>src[pos]\<close> is
  \<^verbatim>\<open>undefined\<close> at and after the end of the input.
\<close>

definition chr :: "string \<Rightarrow> nat \<Rightarrow> char option" where
  "chr src pos = (if pos < length src then Some (src ! pos) else None)"

text \<open>\<^verbatim>\<open>while (pos < src.length && " \t\n\r".includes(src[pos])) pos++\<close>\<close>

function skipWs :: "string \<Rightarrow> nat \<Rightarrow> nat" where
  "skipWs src pos = (if pos < length src \<and> isWs (src ! pos) then skipWs src (Suc pos) else pos)"
  by pat_completeness auto
termination
  by (relation "measure (\<lambda>(src, pos). length src - pos)") auto

declare skipWs.simps [simp del]

text \<open>\<^verbatim>\<open>at(s)\<close>: \<^verbatim>\<open>src.slice(pos, pos + s.length) === s\<close>, and \<^verbatim>\<open>skip(s)\<close>.\<close>

definition at_pos :: "string \<Rightarrow> nat \<Rightarrow> string \<Rightarrow> bool" where
  "at_pos src pos s = (take (length s) (drop pos src) = s)"

definition skip :: "string \<Rightarrow> nat \<Rightarrow> string \<Rightarrow> nat" where
  "skip src pos s = (if at_pos src pos s then pos + length s else pos)"

text \<open>\<^verbatim>\<open>ident()\<close> reads word characters (\<^verbatim>\<open>/\w/\<close>) into a string.\<close>

definition isWord :: "char \<Rightarrow> bool" where
  "isWord c = (c \<in> set ''abcdefghijklmnopqrstuvwxyzABCDEFGHIJKLMNOPQRSTUVWXYZ0123456789_'')"

function ident_loop :: "string \<Rightarrow> nat \<Rightarrow> string \<Rightarrow> string \<times> nat" where
  "ident_loop src pos r =
     (if pos < length src \<and> isWord (src ! pos) then ident_loop src (Suc pos) (r @ [src ! pos])
      else (r, pos))"
  by pat_completeness auto
termination
  by (relation "measure (\<lambda>(src, pos, r). length src - pos)") auto

declare ident_loop.simps [simp del]

definition ident :: "string \<Rightarrow> nat \<Rightarrow> string \<times> nat" where
  "ident src pos = ident_loop src pos []"

text \<open>
  The body of a string literal up to the closing quote \<open>q\<close> or the end of the input;
  a backslash that is not the last character takes the next character with it.
\<close>

definition unescape :: "char \<Rightarrow> char" where
  "unescape c = (if c = CHR ''n'' then CHR 0x0A else if c = CHR ''t'' then CHR 0x09
                 else if c = CHR ''r'' then CHR 0x0D else c)"

function str_loop :: "string \<Rightarrow> char \<Rightarrow> nat \<Rightarrow> string \<Rightarrow> string \<times> nat" where
  "str_loop src q pos s =
     (if pos < length src \<and> src ! pos \<noteq> q
      then (if src ! pos = CHR 0x5C \<and> pos + 1 < length src
            then str_loop src q (pos + 2) (s @ [unescape (src ! (pos + 1))])
            else str_loop src q (Suc pos) (s @ [src ! pos]))
      else (s, pos))"
  by pat_completeness auto
termination
  by (relation "measure (\<lambda>(src, q, pos, s). length src - pos)") auto

declare str_loop.simps [simp del]

text \<open>
  The digits of a number literal; \<open>dot\<close> counts the decimal points seen, and a point
  is consumed only while it is zero.
\<close>

function num_loop :: "string \<Rightarrow> nat \<Rightarrow> string \<Rightarrow> nat \<Rightarrow> string \<times> nat" where
  "num_loop src pos s dot =
     (if pos < length src \<and> (isDigit (src ! pos) \<or> (src ! pos = CHR ''.'' \<and> dot = 0))
      then num_loop src (Suc pos) (s @ [src ! pos]) (if isDigit (src ! pos) then dot else Suc dot)
      else (s, pos))"
  by pat_completeness auto
termination
  by (relation "measure (\<lambda>(src, pos, s, dot). length src - pos)") auto

declare num_loop.simps [simp del]

text \<open>
  \<^verbatim>\<open>parseFloat\<close> on what \<open>num_loop\<close> can produce: an optional minus sign, digits, and
  at most one decimal point followed by digits. The longest prefix that is a number is
  read; when it has no digit the result is not-a-number.
\<close>

definition parseFloat :: "string \<Rightarrow> jsnum" where
  "parseFloat s =
     (let neg = (s \<noteq> [] \<and> hd s = CHR ''-'');
          body = (if neg then tl s else s);
          ip = takeWhile isDigit body;
          rest = dropWhile isDigit body;
          fp = (if rest \<noteq> [] \<and> hd rest = CHR ''.'' then takeWhile isDigit (tl rest) else [])
      in if ip = [] \<and> fp = [] then NaN
         else Fin ((if neg then - 1 else 1) *
                   (of_nat (digitsVal ip) + of_nat (digitsVal fp) / 10 ^ length fp)))"

text \<open>
  The number branch of \<^verbatim>\<open>parseExpr\<close>; a run that is only \<^verbatim>\<open>-\<close> or \<^verbatim>\<open>.\<close> becomes a
  variable of that name.
\<close>

definition number_literal :: "string \<Rightarrow> nat \<Rightarrow> Expr \<times> nat" where
  "number_literal src pos =
     (case (if chr src pos = Some CHR ''-'' then ([CHR ''-''], Suc pos) else ([], pos)) of
        (s1, p1) \<Rightarrow>
     case (if chr src p1 = Some CHR ''.'' then (s1 @ [CHR ''.''], Suc p1, 1) else (s1, p1, 0)) of
        (s2, p2, dot) \<Rightarrow>
     case num_loop src p2 s2 dot of
        (s, p) \<Rightarrow>
          (if s = ''-'' \<or> s = ''.'' \<or> s = [] then V [if s = [] then ''-'' else s]
           else L (VNum (parseFloat s)), p))"

text \<open>
  The string branch: \<^verbatim>\<open>if (pos < src.length) pos++; else s = "";\<close> after the loop.
\<close>

definition string_literal :: "string \<Rightarrow> nat \<Rightarrow> Expr \<times> nat" where
  "string_literal src pos =
     (case str_loop src (src ! pos) (Suc pos) [] of
        (s, p) \<Rightarrow> if p < length src then (L (VStr s), Suc p) else (L (VStr []), p))"

lemma ident_loop_ge: "pos \<le> snd (ident_loop src pos r)"
  by (induction src pos r rule: ident_loop.induct)
     (subst ident_loop.simps, auto elim: Suc_leD)

lemma ident_ge: "pos \<le> snd (ident src pos)"
  by (simp add: ident_def ident_loop_ge)

text \<open>\<^verbatim>\<open>while (src[pos] === ".") { pos++; path.push(ident()); }\<close>\<close>

lemma ident_result_ge: "(seg, p) = ident src pos \<Longrightarrow> pos \<le> p"
  by (metis ident_ge snd_conv)

function path_loop :: "string \<Rightarrow> nat \<Rightarrow> string list \<Rightarrow> string list \<times> nat" where
  "path_loop src pos path =
     (if chr src pos = Some CHR ''.''
      then (case ident src (Suc pos) of (seg, p) \<Rightarrow> path_loop src p (path @ [seg]))
      else (path, pos))"
  by pat_completeness auto
termination
  by (relation "measure (\<lambda>(src, pos, path). length src - pos)")
     (auto simp: chr_def split: if_splits dest!: ident_result_ge)

declare path_loop.simps [simp del]

text \<open>No scanning loop moves the cursor backwards.\<close>

lemma skipWs_ge: "pos \<le> skipWs src pos"
  by (induction src pos rule: skipWs.induct) (subst skipWs.simps, auto elim: Suc_leD)

lemma skipWs_stay: "pos < length src \<Longrightarrow> \<not> isWs (src ! pos) \<Longrightarrow> skipWs src pos = pos"
  by (subst skipWs.simps) simp

lemma str_loop_ge: "pos \<le> snd (str_loop src q pos s)"
  by (induction src q pos s rule: str_loop.induct) (subst str_loop.simps, auto)

lemma num_loop_ge: "pos \<le> snd (num_loop src pos s dot)"
  by (induction src pos s dot rule: num_loop.induct) (subst num_loop.simps, auto elim: Suc_leD)

lemma path_loop_ge: "pos \<le> snd (path_loop src pos path)"
proof (induction src pos path rule: path_loop.induct)
  case (1 src pos path)
  show ?case
  proof (cases "chr src pos = Some CHR ''.''")
    case True
    obtain seg p where sp: "ident src (Suc pos) = (seg, p)" by (cases "ident src (Suc pos)")
    then have "Suc pos \<le> p" using ident_ge [of "Suc pos" src] by simp
    moreover have "p \<le> snd (path_loop src p (path @ [seg]))"
      using 1 [OF True sp [symmetric]] .
    ultimately show ?thesis
      by (subst path_loop.simps) (simp add: True sp)
  next
    case False
    then show ?thesis by (subst path_loop.simps) simp
  qed
qed

lemma string_literal_ge: "pos \<le> snd (string_literal src pos)"
  using str_loop_ge [of "Suc pos" src "src ! pos" "[]"]
  by (auto simp: string_literal_def split: prod.splits)

lemma number_literal_ge: "pos \<le> snd (number_literal src pos)"
proof -
  have "p \<le> snd (num_loop src p s d)" for p s d by (rule num_loop_ge)
  then have *: "num_loop src p s d = (s', p') \<Longrightarrow> p \<le> p'" for p s d s' p'
    by (metis snd_conv)
  show ?thesis
    by (auto simp: number_literal_def split: prod.splits if_splits dest!: *)
qed

text \<open>
  \<^verbatim>\<open>parseExpr\<close>. \<open>parseBase\<close> is the chain of branches that reads the base expression
  (string, number, keyword, call or variable), \<open>parseArgs\<close> the loop that reads the
  arguments of a call or of a pipe up to \<^verbatim>\<open>)\<close>, \<^verbatim>\<open>}\<close> or the end of the input, and
  \<open>parsePipes\<close> the loop over the \<^verbatim>\<open>|\<close> suffixes. The last line of \<^verbatim>\<open>parseExpr\<close> is
  \<^verbatim>\<open>if (pos === start && pos < src.length) pos++\<close>, with \<open>start\<close> taken after the
  leading white space.
\<close>

function parseExpr :: "string \<Rightarrow> nat \<Rightarrow> Expr \<times> nat"
  and parseBase :: "string \<Rightarrow> nat \<Rightarrow> Expr \<times> nat"
  and parseArgs :: "string \<Rightarrow> nat \<Rightarrow> Expr list \<Rightarrow> Expr list \<times> nat"
  and parsePipes :: "string \<Rightarrow> nat \<Rightarrow> Expr \<Rightarrow> Expr \<times> nat"
where
  "parseExpr src pos0 =
     (let start = skipWs src pos0 in
      case parseBase src start of
        (expr, pos1) \<Rightarrow>
          (case parsePipes src (skipWs src pos1) expr of
             (expr', pos2) \<Rightarrow>
               (expr', if pos2 = start \<and> pos2 < length src then Suc pos2 else pos2)))"
| "parseBase src pos =
     (let ch = chr src pos in
      if ch = Some (CHR 0x22) \<or> ch = Some (CHR 0x27) then string_literal src pos
      else if (case ch of Some c \<Rightarrow> c = CHR ''-'' \<or> isDigit c \<or> c = CHR ''.'' | None \<Rightarrow> False)
      then number_literal src pos
      else
        (case ident src pos of
           (name, p) \<Rightarrow>
             if name = ''true'' then (L (VBool True), p)
             else if name = ''false'' then (L (VBool False), p)
             else if name = ''null'' then (L VNull, p)
             else
               (let p1 = skipWs src p in
                if chr src p1 = Some CHR ''(''
                then (case parseArgs src (skipWs src (Suc p1)) [] of
                        (args, p2) \<Rightarrow>
                          (C name args, if chr src p2 = Some CHR '')'' then Suc p2 else p2))
                else (case path_loop src p1 [name] of (path, p2) \<Rightarrow> (V path, p2)))))"
| "parseArgs src pos args =
     (if pos < length src \<and> src ! pos \<noteq> CHR '')'' \<and> src ! pos \<noteq> CHR ''}''
      then (case parseExpr src pos of
              (e, p1) \<Rightarrow>
                (let p2 = skipWs src p1;
                     p3 = (if chr src p2 = Some CHR '','' then skipWs src (Suc p2) else p2)
                 in parseArgs src p3 (args @ [e])))
      else (args, pos))"
| "parsePipes src pos expr =
     (if chr src pos = Some CHR ''|''
      then (let p1 = skipWs src (Suc pos) in
            case ident src p1 of
              (fn, p2) \<Rightarrow>
                (let p3 = skipWs src p2 in
                 case (if chr src p3 = Some CHR ''(''
                       then (case parseArgs src (skipWs src (Suc p3)) [] of
                               (args, p4) \<Rightarrow>
                                 (args, if chr src p4 = Some CHR '')'' then Suc p4 else p4))
                       else ([], p3))
                 of (args, p5) \<Rightarrow> parsePipes src (skipWs src p5) (P expr fn args)))
      else (expr, pos))"
  by pat_completeness auto

text \<open>
  The recursion is nested: where \<open>parseArgs\<close> continues depends on where
  \<^verbatim>\<open>parseExpr\<close> stopped. On the domain of the functions, \<^verbatim>\<open>parseExpr\<close> moves the cursor
  forward whenever input is left, and the others never move it back; with this the
  recursion is well-founded.
\<close>

lemma parse_expr_progress_dom:
  "parseExpr_parseBase_parseArgs_parsePipes_dom (Inl (Inl (src, pos0))) \<Longrightarrow>
     pos0 \<le> snd (parseExpr src pos0) \<and> (pos0 < length src \<longrightarrow> pos0 < snd (parseExpr src pos0))"
  "parseExpr_parseBase_parseArgs_parsePipes_dom (Inl (Inr (src, pos))) \<Longrightarrow>
     pos \<le> snd (parseBase src pos)"
  "parseExpr_parseBase_parseArgs_parsePipes_dom (Inr (Inl (src, pos, args))) \<Longrightarrow>
     pos \<le> snd (parseArgs src pos args)"
  "parseExpr_parseBase_parseArgs_parsePipes_dom (Inr (Inr (src, pos, expr))) \<Longrightarrow>
     pos \<le> snd (parsePipes src pos expr)"
proof (induct rule: parseExpr_parseBase_parseArgs_parsePipes.pinduct)
  case (1 src pos0)
  define start where "start = skipWs src pos0"
  obtain expr pos1 where b: "parseBase src start = (expr, pos1)"
    by (cases "parseBase src start")
  obtain expr' pos2 where p: "parsePipes src (skipWs src pos1) expr = (expr', pos2)"
    by (cases "parsePipes src (skipWs src pos1) expr")
  have "start \<le> pos1" using 1(2) [OF start_def] b by simp
  moreover have "skipWs src pos1 \<le> pos2" using 1(3) [OF start_def b [symmetric]] p by simp
  moreover have "pos0 \<le> start" and "pos1 \<le> skipWs src pos1"
    by (simp_all add: start_def skipWs_ge)
  moreover have "snd (parseExpr src pos0) =
      (if pos2 = start \<and> pos2 < length src then Suc pos2 else pos2)"
    by (simp add: parseExpr.psimps [OF 1(1)] start_def [symmetric] b p)
  ultimately show ?case by auto
next
  case (2 src pos)
  show ?case
  proof (cases "chr src pos = Some (CHR 0x22) \<or> chr src pos = Some (CHR 0x27)")
    case True
    then show ?thesis
      using string_literal_ge [of pos src] by (simp add: parseBase.psimps [OF 2(1)])
  next
    case nq: False
    show ?thesis
    proof (cases "case chr src pos of Some c \<Rightarrow> c = CHR ''-'' \<or> isDigit c \<or> c = CHR ''.''
                  | None \<Rightarrow> False")
      case True
      then show ?thesis
        using nq number_literal_ge [of pos src] by (simp add: parseBase.psimps [OF 2(1)])
    next
      case nn: False
      obtain name p where ip: "ident src pos = (name, p)" by (cases "ident src pos")
      have pp: "pos \<le> p" using ident_ge [of pos src] ip by simp
      show ?thesis
      proof (cases "name = ''true'' \<or> name = ''false'' \<or> name = ''null''")
        case True
        then show ?thesis
          using nq nn ip pp by (auto simp add: parseBase.psimps [OF 2(1)])
      next
        case kw: False
        define p1 where "p1 = skipWs src p"
        have p1: "p \<le> p1" by (simp add: p1_def skipWs_ge)
        show ?thesis
        proof (cases "chr src p1 = Some CHR ''(''")
          case True
          obtain args p2 where ap: "parseArgs src (skipWs src (Suc p1)) [] = (args, p2)"
            by (cases "parseArgs src (skipWs src (Suc p1)) []")
          have "skipWs src (Suc p1) \<le> p2"
            using 2(2) [OF refl nq nn ip [symmetric] _ _ _ p1_def True] kw ap by simp
          then have "pos \<le> p2"
            using pp p1 skipWs_ge [of "Suc p1" src] by simp
          then show ?thesis
            using nq nn ip kw True ap
            by (simp add: parseBase.psimps [OF 2(1)] p1_def [symmetric])
        next
          case False
          obtain path p2 where pl: "path_loop src p1 [name] = (path, p2)"
            by (cases "path_loop src p1 [name]")
          have "p1 \<le> p2" using path_loop_ge [of p1 src "[name]"] pl by simp
          then show ?thesis
            using nq nn ip kw False pl pp p1
            by (simp add: parseBase.psimps [OF 2(1)] p1_def [symmetric])
        qed
      qed
    qed
  qed
next
  case (3 src pos args)
  show ?case
  proof (cases "pos < length src \<and> src ! pos \<noteq> CHR '')'' \<and> src ! pos \<noteq> CHR ''}''")
    case True
    obtain e p1 where ep: "parseExpr src pos = (e, p1)" by (cases "parseExpr src pos")
    have "pos < p1" using 3(2) [OF True] True ep by simp
    define p2 where "p2 = skipWs src p1"
    define p3 where "p3 = (if chr src p2 = Some CHR '','' then skipWs src (Suc p2) else p2)"
    have "p1 \<le> p3"
      using skipWs_ge [of p1 src] skipWs_ge [of "Suc p2" src] by (auto simp: p2_def p3_def)
    moreover have "p3 \<le> snd (parseArgs src p3 (args @ [e]))"
      using 3(3) [OF True ep [symmetric] p2_def p3_def] .
    moreover have "parseArgs src pos args = parseArgs src p3 (args @ [e])"
      using True unfolding p3_def p2_def
      by (simp add: parseArgs.psimps [OF 3(1)] ep Let_def)
    ultimately show ?thesis
      using \<open>pos < p1\<close> by simp
  next
    case False
    then show ?thesis by (auto simp add: parseArgs.psimps [OF 3(1)])
  qed
next
  case (4 src pos expr)
  show ?case
  proof (cases "chr src pos = Some CHR ''|''")
    case True
    define p1 where "p1 = skipWs src (Suc pos)"
    obtain fn p2 where ip: "ident src p1 = (fn, p2)" by (cases "ident src p1")
    define p3 where "p3 = skipWs src p2"
    define r where "r = (if chr src p3 = Some CHR ''(''
                       then (case parseArgs src (skipWs src (Suc p3)) [] of
                               (args, p4) \<Rightarrow>
                                 (args, if chr src p4 = Some CHR '')'' then Suc p4 else p4))
                       else ([], p3))"
    obtain args p5 where r: "r = (args, p5)" by (cases r)
    have "Suc pos \<le> p1" "p1 \<le> p2" "p2 \<le> p3"
      using skipWs_ge [of "Suc pos" src] ident_ge [of p1 src] ip skipWs_ge [of p2 src]
      by (simp_all add: p1_def p3_def)
    moreover have "p3 \<le> p5"
    proof (cases "chr src p3 = Some CHR ''(''")
      case lp: True
      obtain as p4 where ap: "parseArgs src (skipWs src (Suc p3)) [] = (as, p4)"
        by (cases "parseArgs src (skipWs src (Suc p3)) []")
      have "skipWs src (Suc p3) \<le> p4"
        using 4(2) [OF True p1_def ip [symmetric] p3_def lp] ap by simp
      then show ?thesis
        using r lp ap skipWs_ge [of "Suc p3" src] by (auto simp: r_def split: if_splits)
    next
      case False
      then show ?thesis using r by (simp add: r_def)
    qed
    moreover have "skipWs src p5 \<le> snd (parsePipes src (skipWs src p5) (P expr fn args))"
      using 4(3) [OF True p1_def ip [symmetric] p3_def] r unfolding r_def by simp
    moreover have "parsePipes src pos expr = parsePipes src (skipWs src p5) (P expr fn args)"
      using True r unfolding r_def p3_def p1_def
      by (simp add: parsePipes.psimps [OF 4(1)] ip [unfolded p1_def] Let_def)
    ultimately show ?thesis
      using skipWs_ge [of p5 src] by simp
  next
    case False
    then show ?thesis by (simp add: parsePipes.psimps [OF 4(1)])
  qed
qed


lemma chr_SomeD: "chr src pos = Some c \<Longrightarrow> pos < length src"
  by (simp add: chr_def split: if_splits)

lemma parse_expr_total: "All parseExpr_parseBase_parseArgs_parsePipes_dom"
proof (relation "measure (\<lambda>x. case x of
      Inl (Inl (src, pos)) \<Rightarrow> 4 * (length src - pos) + 2
    | Inl (Inr (src, pos)) \<Rightarrow> 4 * (length src - pos) + 1
    | Inr (Inl (src, pos, args)) \<Rightarrow> 4 * (length src - pos) + 3
    | Inr (Inr (src, pos, expr)) \<Rightarrow> 4 * (length src - pos))", goal_cases)
  case 1
  show ?case by simp
next
  case (2 src pos0 start)
  then show ?case using skipWs_ge [of pos0 src] by simp
next
  case (3 src pos0 start expr pos1)
  have "start \<le> pos1"
    using parse_expr_progress_dom(2) [OF 3(3)] 3(1,2) by (metis snd_conv)
  then show ?case
    using skipWs_ge [of pos0 src] skipWs_ge [of pos1 src] 3(1) by simp
next
  case (4 src pos ch name p p1)
  have "pos \<le> p" using ident_ge [of pos src] 4(4) by (metis snd_conv)
  moreover have "p \<le> p1" "p1 < length src"
    using 4(8,9) skipWs_ge [of p src] by (auto dest: chr_SomeD)
  moreover have "Suc p1 \<le> skipWs src (Suc p1)" by (rule skipWs_ge)
  ultimately show ?case by simp
next
  case (5 src pos args)
  then show ?case by simp
next
  case (6 src pos args e p1 p2 p3)
  have "pos < p1"
    using parse_expr_progress_dom(1) [OF 6(5)] 6(1,2) by (metis snd_conv)
  moreover have "p1 \<le> p3"
    using 6(3,4) skipWs_ge [of p1 src] skipWs_ge [of "Suc p2" src] by (auto split: if_splits)
  ultimately show ?case using 6(1) by auto
next
  case (7 src pos expr p1 fn p2 p3)
  have "pos < length src" using 7(1) by (rule chr_SomeD)
  moreover have "Suc pos \<le> p1" "p1 \<le> p2" "p2 \<le> p3" "p3 < length src"
    using 7 skipWs_ge [of "Suc pos" src] ident_ge [of p1 src] skipWs_ge [of p2 src]
    by (auto dest: chr_SomeD) (metis snd_conv)
  moreover have "Suc p3 \<le> skipWs src (Suc p3)" by (rule skipWs_ge)
  ultimately show ?case by simp
next
  case (8 src pos expr p1 fn p2 p3 args p5)
  have "pos < length src" using 8(1) by (rule chr_SomeD)
  moreover have "Suc pos \<le> p1" "p1 \<le> p2" "p2 \<le> p3"
    using 8(2,3,4) skipWs_ge [of "Suc pos" src] ident_ge [of p1 src] skipWs_ge [of p2 src]
    by auto (metis snd_conv)
  moreover have "p3 \<le> p5"
  proof (cases "chr src p3 = Some CHR ''(''")
    case True
    obtain as p4 where ap: "parseArgs src (skipWs src (Suc p3)) [] = (as, p4)"
      by (cases "parseArgs src (skipWs src (Suc p3)) []")
    have "skipWs src (Suc p3) \<le> p4"
      using parse_expr_progress_dom(3) [OF 8(6) [OF True]] ap by simp
    then show ?thesis
      using 8(5) True ap skipWs_ge [of "Suc p3" src] by (auto split: if_splits)
  next
    case False
    then show ?thesis using 8(5) by simp
  qed
  moreover have "p5 \<le> skipWs src p5" by (rule skipWs_ge)
  ultimately show ?case by simp
qed


termination parseExpr
  by (rule parse_expr_total)

declare parseExpr.simps [simp del] parseBase.simps [simp del]
  parseArgs.simps [simp del] parsePipes.simps [simp del]

lemma parseExpr_ge: "pos \<le> snd (parseExpr src pos)"
  and parseExpr_gt: "pos < length src \<Longrightarrow> pos < snd (parseExpr src pos)"
  using parse_expr_progress_dom(1) [of src pos] parse_expr_total by auto

lemma parseArgs_ge: "pos \<le> snd (parseArgs src pos args)"
  using parse_expr_progress_dom(3) [of src pos args] parse_expr_total by auto

lemma parseBase_ge: "pos \<le> snd (parseBase src pos)"
  and parsePipes_ge: "pos \<le> snd (parsePipes src pos e)"
  using parse_expr_progress_dom(2) [of src pos] parse_expr_progress_dom(4) [of src pos e]
    parse_expr_total
  by auto

text \<open>
  The last line of \<^verbatim>\<open>parseExpr\<close> at work: measured from \<open>start\<close>, the cursor behind the
  leading white space, the expression parser moves on whenever input is left there, by
  the one character of that line when the branches have read nothing.
\<close>

lemma parseExpr_start:
  "skipWs src pos \<le> snd (parseExpr src pos)"
  "skipWs src pos < length src \<Longrightarrow> skipWs src pos < snd (parseExpr src pos)"
  "snd (parsePipes src (skipWs src (snd (parseBase src (skipWs src pos))))
          (fst (parseBase src (skipWs src pos)))) = skipWs src pos
   \<Longrightarrow> skipWs src pos < length src \<Longrightarrow> snd (parseExpr src pos) = Suc (skipWs src pos)"
proof -
  define start where "start = skipWs src pos"
  obtain expr pos1 where b: "parseBase src start = (expr, pos1)" by (cases "parseBase src start")
  obtain expr' pos2 where p: "parsePipes src (skipWs src pos1) expr = (expr', pos2)"
    by (cases "parsePipes src (skipWs src pos1) expr")
  have e: "snd (parseExpr src pos) = (if pos2 = start \<and> pos2 < length src then Suc pos2 else pos2)"
    by (subst parseExpr.simps) (simp add: start_def [symmetric] b p)
  have g: "start \<le> pos2"
    using parseBase_ge [of start src] b skipWs_ge [of pos1 src]
      parsePipes_ge [of "skipWs src pos1" src expr] p
    by simp
  show "skipWs src pos \<le> snd (parseExpr src pos)"
    using e g by (simp add: start_def [symmetric])
  show "skipWs src pos < snd (parseExpr src pos)" if "skipWs src pos < length src"
    using e g that by (auto simp add: start_def [symmetric])
  show "snd (parseExpr src pos) = Suc (skipWs src pos)"
    if "snd (parsePipes src (skipWs src (snd (parseBase src (skipWs src pos))))
          (fst (parseBase src (skipWs src pos)))) = skipWs src pos"
      and "skipWs src pos < length src"
    using e that by (simp add: start_def [symmetric] b p)
qed

subsection \<open>Nodes\<close>

text \<open>\<^verbatim>\<open>while (pos < src.length && !at("}}")) pos++\<close>\<close>

function scan_close :: "string \<Rightarrow> nat \<Rightarrow> nat" where
  "scan_close src pos =
     (if pos < length src \<and> \<not> at_pos src pos ''}}'' then scan_close src (Suc pos) else pos)"
  by pat_completeness auto
termination
  by (relation "measure (\<lambda>(src, pos). length src - pos)") auto

declare scan_close.simps [simp del]

text \<open>The escaped delimiter: a backslash before \<^verbatim>\<open>{{\<close>.\<close>

definition escOpen :: string where
  "escOpen = [CHR 0x5C, CHR ''{'', CHR ''{'']"

text \<open>
  The loop that gathers plain text up to a stop sequence, an escaped delimiter, a tag or
  the end of the input. Either way out, the text gathered is pushed when it is not empty
  and control returns to the head of the outer loop.
\<close>

function text_loop :: "string \<Rightarrow> nat \<Rightarrow> string list \<Rightarrow> string \<Rightarrow> string \<times> nat" where
  "text_loop src pos stops text =
     (if pos < length src
      then (if list_ex (at_pos src pos) stops then (text, pos)
            else if src ! pos = CHR 0x5C \<and> at_pos src pos escOpen then (text, pos)
            else if at_pos src pos ''{{'' then (text, pos)
            else text_loop src (Suc pos) stops (text @ [src ! pos]))
      else (text, pos))"
  by pat_completeness auto
termination
  by (relation "measure (\<lambda>(src, pos, stops, text). length src - pos)") auto

declare text_loop.simps [simp del]

text \<open>The stop sequences of the body of an \<^verbatim>\<open>if\<close> branch, and the error text.\<close>

definition ifStops :: "string list" where
  "ifStops = [''{{:else if'', ''{{:elseif'', ''{{:else}}'', ''{{/if}}'']"

definition missingAs :: string where
  "missingAs = ''[Error: #each missing 'as']''"

text \<open>
  \<^verbatim>\<open>parseNodes(stops)\<close>. Each iteration of its outer loop pushes the nodes of one item
  (an escaped delimiter, a tag, or a run of text) and continues; the model returns the
  nodes of the item in front of those of the rest. \<open>parseTag\<close> is the code after
  \<^verbatim>\<open>pos += 2; skipWs();\<close> of a tag; \<open>parseIf\<close> and \<open>parseEach\<close> are the two block
  branches, entered after the keyword and the white space behind it; \<open>parseElifs\<close> is
  the loop over the else-if branches and \<open>parseElse\<close> the optional else-body, which
  both blocks read in the same way.
\<close>

function parseNodes :: "string \<Rightarrow> nat \<Rightarrow> string list \<Rightarrow> Node list \<times> nat"
  and parseTag :: "string \<Rightarrow> nat \<Rightarrow> Node \<times> nat"
  and parseIf :: "string \<Rightarrow> nat \<Rightarrow> Node \<times> nat"
  and parseElifs :: "string \<Rightarrow> nat \<Rightarrow> (Expr \<times> Node list) list \<times> nat"
  and parseEach :: "string \<Rightarrow> nat \<Rightarrow> Node \<times> nat"
  and parseElse :: "string \<Rightarrow> nat \<Rightarrow> string list \<Rightarrow> Node list option \<times> nat"
where
  "parseNodes src pos stops =
     (if pos < length src
      then (if list_ex (at_pos src pos) stops then ([], pos)
            else if src ! pos = CHR 0x5C \<and> at_pos src pos escOpen
            then (case parseNodes src (pos + 3) stops of (ns, p) \<Rightarrow> (T ''{{'' # ns, p))
            else if at_pos src pos ''{{''
            then (case parseTag src (skipWs src (pos + 2)) of
                    (n, p) \<Rightarrow>
                      (case parseNodes src p stops of (ns, p') \<Rightarrow> (n # ns, p')))
            else (case text_loop src pos stops [] of
                    (text, p) \<Rightarrow>
                      (case parseNodes src p stops of
                         (ns, p') \<Rightarrow> ((if text \<noteq> [] then [T text] else []) @ ns, p'))))
      else ([], pos))"
| "parseTag src pos =
     (if chr src pos = Some CHR ''+''
      then (case parseExpr src (skipWs src (Suc pos)) of
              (expr, p1) \<Rightarrow>
                (I expr True,
                 skip src (scan_close src (skipWs src (skip src (skipWs src p1) ''+''))) ''}}''))
      else if chr src pos = Some CHR ''#''
      then (case ident src (Suc pos) of
              (kw, p1) \<Rightarrow>
                (let p2 = skipWs src p1 in
                 if kw = ''if'' then parseIf src p2
                 else if kw = ''each'' then parseEach src p2
                 else (T (''[Error: unknown #'' @ kw @ '']''), skip src (skipWs src p2) ''}}'')))
      else (case parseExpr src pos of
              (expr, p1) \<Rightarrow>
                (I expr False, skip src (scan_close src (skipWs src p1)) ''}}'')))"
| "parseIf src pos =
     (case parseExpr src pos of
        (cond, p1) \<Rightarrow>
          (case parseNodes src (skip src (skipWs src p1) ''}}'') ifStops of
             (body, p2) \<Rightarrow>
               (case parseElifs src p2 of
                  (elifs, p3) \<Rightarrow>
                    (case parseElse src p3 [''{{/if}}''] of
                       (elseBody, p4) \<Rightarrow>
                         (F ((cond, body) # elifs) elseBody, skip src p4 ''{{/if}}'')))))"
| "parseElifs src pos =
     (if at_pos src pos ''{{:else if'' \<or> at_pos src pos ''{{:elseif''
      then (let p0 = pos + (if at_pos src pos ''{{:elseif'' then 9 else 10) in
            case parseExpr src (skipWs src p0) of
              (cond2, p1) \<Rightarrow>
                (case parseNodes src (skip src (skipWs src p1) ''}}'') ifStops of
                   (body, p2) \<Rightarrow>
                     (case parseElifs src p2 of
                        (elifs, p3) \<Rightarrow> ((cond2, body) # elifs, p3))))
      else ([], pos))"
| "parseEach src pos =
     (case parseExpr src pos of
        (arrExpr, p1) \<Rightarrow>
          (case ident src (skipWs src p1) of
             (asKw, p2) \<Rightarrow>
               (let p3 = skipWs src p2 in
                if asKw \<noteq> ''as'' then (T missingAs, p3)
                else
                  (case ident src p3 of
                     (itemName, p4) \<Rightarrow>
                       (let p5 = skipWs src p4 in
                        case (if chr src p5 = Some CHR '',''
                              then (case ident src (skipWs src (Suc p5)) of
                                      (nm, q) \<Rightarrow> (Some nm, skipWs src q))
                              else (None, p5))
                        of (idxName, p6) \<Rightarrow>
                          (case parseNodes src (skip src p6 ''}}'') [''{{:else}}'', ''{{/each}}''] of
                             (body, p7) \<Rightarrow>
                               (case parseElse src p7 [''{{/each}}''] of
                                  (elseBody, p8) \<Rightarrow>
                                    (E arrExpr itemName idxName body elseBody,
                                     skip src p8 ''{{/each}}''))))))))"
| "parseElse src pos stops =
     (if at_pos src pos ''{{:else}}''
      then (case parseNodes src (pos + 9) stops of (eb, p) \<Rightarrow> (Some eb, p))
      else (None, pos))"
  by pat_completeness auto


text \<open>
  Again the recursion is nested (a block continues where its body stopped), and it is
  well-founded because no function moves the cursor back and a run of text is never
  empty.
\<close>

lemma scan_close_ge: "pos \<le> scan_close src pos"
  by (induction src pos rule: scan_close.induct) (subst scan_close.simps, auto elim: Suc_leD)

lemma text_loop_ge: "pos \<le> snd (text_loop src pos stops buf)"
  by (induction src pos stops buf rule: text_loop.induct)
     (subst text_loop.simps, auto elim: Suc_leD)

lemma text_loop_gt:
  assumes "pos < length src" and "\<not> list_ex (at_pos src pos) stops"
    and "\<not> (src ! pos = CHR 0x5C \<and> at_pos src pos escOpen)" and "\<not> at_pos src pos ''{{''"
  shows "pos < snd (text_loop src pos stops buf)"
  using assms text_loop_ge [of "Suc pos" src stops "buf @ [src ! pos]"]
  by (subst text_loop.simps) auto

lemma skip_ge: "pos \<le> skip src pos s"
  by (simp add: skip_def)

lemma at_pos_lt: "at_pos src pos s \<Longrightarrow> s \<noteq> [] \<Longrightarrow> pos < length src"
  by (cases "pos < length src") (auto simp: at_pos_def)

lemma parse_nodes_progress_dom:
  "parseNodes_parseTag_parseIf_parseElifs_parseEach_parseElse_dom (Inl (Inl (src, pos, stops))) \<Longrightarrow>
     pos \<le> snd (parseNodes src pos stops)"
  "parseNodes_parseTag_parseIf_parseElifs_parseEach_parseElse_dom (Inl (Inr (Inl (src, pos)))) \<Longrightarrow>
     pos \<le> snd (parseTag src pos)"
  "parseNodes_parseTag_parseIf_parseElifs_parseEach_parseElse_dom (Inl (Inr (Inr (src, pos)))) \<Longrightarrow>
     pos \<le> snd (parseIf src pos)"
  "parseNodes_parseTag_parseIf_parseElifs_parseEach_parseElse_dom (Inr (Inl (src, pos))) \<Longrightarrow>
     pos \<le> snd (parseElifs src pos)"
  "parseNodes_parseTag_parseIf_parseElifs_parseEach_parseElse_dom (Inr (Inr (Inl (src, pos)))) \<Longrightarrow>
     pos \<le> snd (parseEach src pos)"
  "parseNodes_parseTag_parseIf_parseElifs_parseEach_parseElse_dom (Inr (Inr (Inr (src, pos, stops)))) \<Longrightarrow>
     pos \<le> snd (parseElse src pos stops)"
proof (induct rule: parseNodes_parseTag_parseIf_parseElifs_parseEach_parseElse.pinduct)
  case (1 src pos stops)
  note ps = parseNodes.psimps [OF 1(1)]
  show ?case
  proof (cases "pos < length src")
    case False
    then show ?thesis by (auto simp add: ps)
  next
    case lt: True
    show ?thesis
    proof (cases "list_ex (at_pos src pos) stops")
      case True
      then show ?thesis using lt by (auto simp add: ps)
    next
      case ns: False
      show ?thesis
      proof (cases "src ! pos = CHR 0x5C \<and> at_pos src pos escOpen")
        case True
        obtain ns' p where r: "parseNodes src (pos + 3) stops = (ns', p)"
          by (cases "parseNodes src (pos + 3) stops")
        have "pos + 3 \<le> p" using 1(2) [OF lt ns True] r by simp
        then show ?thesis using lt ns True r by (auto simp add: ps)
      next
        case ne: False
        show ?thesis
        proof (cases "at_pos src pos ''{{''")
          case True
          obtain n p where t: "parseTag src (skipWs src (pos + 2)) = (n, p)"
            by (cases "parseTag src (skipWs src (pos + 2))")
          obtain ns' p' where r: "parseNodes src p stops = (ns', p')"
            by (cases "parseNodes src p stops")
          have "skipWs src (pos + 2) \<le> p" using 1(3) [OF lt ns ne True] t by simp
          moreover have "p \<le> p'" using 1(4) [OF lt ns ne True t [symmetric]] r by simp
          moreover have "pos + 2 \<le> skipWs src (pos + 2)" by (rule skipWs_ge)
          ultimately show ?thesis using lt ns ne True t r by (auto simp add: ps)
        next
          case False
          obtain tx p where t: "text_loop src pos stops [] = (tx, p)"
            by (cases "text_loop src pos stops []")
          obtain ns' p' where r: "parseNodes src p stops = (ns', p')"
            by (cases "parseNodes src p stops")
          have "pos \<le> p" using text_loop_ge [of pos src stops "[]"] t by simp
          moreover have "p \<le> p'" using 1(5) [OF lt ns ne False t [symmetric]] r by simp
          ultimately show ?thesis using lt ns ne False t r by (auto simp add: ps)
        qed
      qed
    qed
  qed
next
  case (2 src pos)
  note ps = parseTag.psimps [OF 2(1)]
  show ?case
  proof (cases "chr src pos = Some CHR ''+''")
    case True
    obtain expr p1 where e: "parseExpr src (skipWs src (Suc pos)) = (expr, p1)"
      by (cases "parseExpr src (skipWs src (Suc pos))")
    have "Suc pos \<le> skipWs src (Suc pos)" by (rule skipWs_ge)
    moreover have "skipWs src (Suc pos) \<le> p1"
      using parseExpr_ge [of "skipWs src (Suc pos)" src] e by simp
    moreover have "p1 \<le> skip src (scan_close src (skipWs src (skip src (skipWs src p1) ''+''))) ''}}''"
      by (meson skipWs_ge skip_ge scan_close_ge order_trans)
    ultimately show ?thesis using True e by (auto simp add: ps)
  next
    case np: False
    show ?thesis
    proof (cases "chr src pos = Some CHR ''#''")
      case True
      obtain kw p1 where k: "ident src (Suc pos) = (kw, p1)" by (cases "ident src (Suc pos)")
      define p2 where "p2 = skipWs src p1"
      have le: "Suc pos \<le> p1" "p1 \<le> p2"
        using ident_ge [of "Suc pos" src] k skipWs_ge [of p1 src] by (simp_all add: p2_def)
      show ?thesis
      proof (cases "kw = ''if''")
        case kif: True
        have "p2 \<le> snd (parseIf src p2)" using 2(2) [OF np True k [symmetric] p2_def kif] .
        then show ?thesis using np True k kif le by (auto simp add: ps p2_def [symmetric])
      next
        case nif: False
        show ?thesis
        proof (cases "kw = ''each''")
          case keach: True
          have "p2 \<le> snd (parseEach src p2)"
            using 2(3) [OF np True k [symmetric] p2_def nif keach] .
          then show ?thesis using np True k nif keach le by (auto simp add: ps p2_def [symmetric])
        next
          case False
          have "p2 \<le> skip src (skipWs src p2) ''}}''"
            by (meson skipWs_ge skip_ge order_trans)
          then show ?thesis using np True k nif False le by (auto simp add: ps p2_def [symmetric])
        qed
      qed
    next
      case False
      obtain expr p1 where e: "parseExpr src pos = (expr, p1)" by (cases "parseExpr src pos")
      have "pos \<le> p1" using parseExpr_ge [of pos src] e by simp
      moreover have "p1 \<le> skip src (scan_close src (skipWs src p1)) ''}}''"
        by (meson skipWs_ge skip_ge scan_close_ge order_trans)
      ultimately show ?thesis using np False e by (auto simp add: ps)
    qed
  qed
next
  case (3 src pos)
  note ps = parseIf.psimps [OF 3(1)]
  obtain cond p1 where e: "parseExpr src pos = (cond, p1)" by (cases "parseExpr src pos")
  define q where "q = skip src (skipWs src p1) ''}}''"
  obtain body p2 where b: "parseNodes src q ifStops = (body, p2)"
    by (cases "parseNodes src q ifStops")
  obtain elifs p3 where m: "parseElifs src p2 = (elifs, p3)" by (cases "parseElifs src p2")
  obtain elseBody p4 where l: "parseElse src p3 [''{{/if}}''] = (elseBody, p4)"
    by (cases "parseElse src p3 [''{{/if}}'']")
  have "pos \<le> p1" using parseExpr_ge [of pos src] e by simp
  moreover have "p1 \<le> q" unfolding q_def by (meson skipWs_ge skip_ge order_trans)
  moreover have "q \<le> p2" using 3(2) [OF e [symmetric]] b unfolding q_def by simp
  moreover have "p2 \<le> p3"
    using 3(3) [OF e [symmetric] b [unfolded q_def, symmetric]] m by simp
  moreover have "p3 \<le> p4"
    using 3(4) [OF e [symmetric] b [unfolded q_def, symmetric] m [symmetric]] l by simp
  moreover have "p4 \<le> skip src p4 ''{{/if}}''" by (rule skip_ge)
  ultimately show ?case
    using e b [unfolded q_def] m l by (auto simp add: ps)
next
  case (4 src pos)
  note ps = parseElifs.psimps [OF 4(1)]
  show ?case
  proof (cases "at_pos src pos ''{{:else if'' \<or> at_pos src pos ''{{:elseif''")
    case True
    define p0 where "p0 = pos + (if at_pos src pos ''{{:elseif'' then 9 else 10)"
    obtain cond2 p1 where e: "parseExpr src (skipWs src p0) = (cond2, p1)"
      by (cases "parseExpr src (skipWs src p0)")
    define q where "q = skip src (skipWs src p1) ''}}''"
    obtain body p2 where b: "parseNodes src q ifStops = (body, p2)"
      by (cases "parseNodes src q ifStops")
    obtain elifs p3 where m: "parseElifs src p2 = (elifs, p3)" by (cases "parseElifs src p2")
    have "pos \<le> p0" by (simp add: p0_def)
    moreover have "p0 \<le> p1"
      using parseExpr_ge [of "skipWs src p0" src] e skipWs_ge [of p0 src] by simp
    moreover have "p1 \<le> q" unfolding q_def by (meson skipWs_ge skip_ge order_trans)
    moreover have "q \<le> p2"
      using 4(2) [OF True p0_def e [symmetric]] b unfolding q_def by simp
    moreover have "p2 \<le> p3"
      using 4(3) [OF True p0_def e [symmetric] b [unfolded q_def, symmetric]] m by simp
    ultimately show ?thesis
      using True e [unfolded p0_def] b [unfolded q_def] m by (auto simp add: ps Let_def)
  next
    case False
    then show ?thesis by (auto simp add: ps)
  qed
next
  case (5 src pos)
  note ps = parseEach.psimps [OF 5(1)]
  obtain arrExpr p1 where e: "parseExpr src pos = (arrExpr, p1)" by (cases "parseExpr src pos")
  obtain asKw p2 where k: "ident src (skipWs src p1) = (asKw, p2)"
    by (cases "ident src (skipWs src p1)")
  define p3 where "p3 = skipWs src p2"
  have le3: "pos \<le> p1" "p1 \<le> p2" "p2 \<le> p3"
    using parseExpr_ge [of pos src] e ident_ge [of "skipWs src p1" src] k
      skipWs_ge [of p1 src] skipWs_ge [of p2 src]
    by (simp_all add: p3_def)
  show ?case
  proof (cases "asKw \<noteq> ''as''")
    case True
    then show ?thesis using e k le3 by (auto simp add: ps p3_def [symmetric])
  next
    case isAs: False
    obtain itemName p4 where it: "ident src p3 = (itemName, p4)" by (cases "ident src p3")
    define p5 where "p5 = skipWs src p4"
    define r where "r = (if chr src p5 = Some CHR '',''
                           then case ident src (skipWs src (Suc p5)) of
                                  (nm, q) \<Rightarrow> (Some nm, skipWs src q)
                           else (None, p5))"
    obtain idxName p6 where r: "r = (idxName, p6)" by (cases r)
    define q where "q = skip src p6 ''}}''"
    obtain body p7 where b: "parseNodes src q [''{{:else}}'', ''{{/each}}''] = (body, p7)"
      by (cases "parseNodes src q [''{{:else}}'', ''{{/each}}'']")
    obtain elseBody p8 where l: "parseElse src p7 [''{{/each}}''] = (elseBody, p8)"
      by (cases "parseElse src p7 [''{{/each}}'']")
    have "p3 \<le> p4" "p4 \<le> p5"
      using ident_ge [of p3 src] it skipWs_ge [of p4 src] by (simp_all add: p5_def)
    moreover have "p5 \<le> p6"
    proof (cases "chr src p5 = Some CHR '',''")
      case True
      obtain nm q' where n: "ident src (skipWs src (Suc p5)) = (nm, q')"
        by (cases "ident src (skipWs src (Suc p5))")
      have "Suc p5 \<le> q'"
        using ident_ge [of "skipWs src (Suc p5)" src] n skipWs_ge [of "Suc p5" src] by simp
      then show ?thesis
        using r True n skipWs_ge [of q' src] by (simp add: r_def)
    next
      case False
      then show ?thesis using r by (simp add: r_def)
    qed
    moreover have "p6 \<le> q" unfolding q_def by (rule skip_ge)
    moreover have "q \<le> p7"
      using 5(2) [OF e [symmetric] k [symmetric] p3_def isAs it [symmetric] p5_def
          r [unfolded r_def, symmetric]] b
      unfolding q_def by simp
    moreover have "p7 \<le> p8"
      using 5(3) [OF e [symmetric] k [symmetric] p3_def isAs it [symmetric] p5_def
          r [unfolded r_def, symmetric] b [unfolded q_def, symmetric]] l
      by simp
    moreover have "p8 \<le> skip src p8 ''{{/each}}''" by (rule skip_ge)
    moreover have "snd (parseEach src pos) = skip src p8 ''{{/each}}''"
      using isAs e k it r [unfolded r_def p5_def p3_def] b [unfolded q_def] l
      unfolding ps p3_def p5_def
      by (simp add: Let_def)
    ultimately show ?thesis using le3 by simp
  qed
next
  case (6 src pos stops)
  note ps = parseElse.psimps [OF 6(1)]
  show ?case
  proof (cases "at_pos src pos ''{{:else}}''")
    case True
    obtain eb p where r: "parseNodes src (pos + 9) stops = (eb, p)"
      by (cases "parseNodes src (pos + 9) stops")
    have "pos + 9 \<le> p" using 6(2) [OF True] r by simp
    then show ?thesis using True r by (auto simp add: ps)
  next
    case False
    then show ?thesis by (auto simp add: ps)
  qed
qed

lemma index_name_ge:
  assumes "(idxName, p6) =
     (if chr src p5 = Some CHR '',''
      then case ident src (skipWs src (Suc p5)) of (nm, q) \<Rightarrow> (Some nm, skipWs src q)
      else (None, p5))"
  shows "p5 \<le> p6"
proof (cases "chr src p5 = Some CHR '',''")
  case True
  obtain nm q' where n: "ident src (skipWs src (Suc p5)) = (nm, q')"
    by (cases "ident src (skipWs src (Suc p5))")
  have "Suc p5 \<le> q'"
    using ident_ge [of "skipWs src (Suc p5)" src] n skipWs_ge [of "Suc p5" src] by simp
  then show ?thesis
    using assms True n skipWs_ge [of q' src] by simp
next
  case False
  then show ?thesis using assms by simp
qed

lemma each_header_ge:
  assumes "(arrExpr, p1) = parseExpr src pos" and "(asKw, p2) = ident src (skipWs src p1)"
    and "p3 = skipWs src p2" and "(itemName, p4) = ident src p3" and "p5 = skipWs src p4"
    and "(idxName, p6) =
     (if chr src p5 = Some CHR '',''
      then case ident src (skipWs src (Suc p5)) of (nm, q) \<Rightarrow> (Some nm, skipWs src q)
      else (None, p5))"
  shows "pos \<le> skip src p6 ''}}''"
proof -
  have "pos \<le> p1" using parseExpr_ge [of pos src] assms(1) by (metis snd_conv)
  moreover have "p1 \<le> p2"
    using ident_ge [of "skipWs src p1" src] skipWs_ge [of p1 src] assms(2)
    by (metis snd_conv order_trans)
  moreover have "p2 \<le> p3" using assms(3) skipWs_ge [of p2 src] by simp
  moreover have "p3 \<le> p4" using ident_ge [of p3 src] assms(4) by (metis snd_conv)
  moreover have "p4 \<le> p5" using assms(5) skipWs_ge [of p4 src] by simp
  moreover have "p5 \<le> p6" using assms(6) by (rule index_name_ge)
  moreover have "p6 \<le> skip src p6 ''}}''" by (rule skip_ge)
  ultimately show ?thesis by simp
qed

lemma tag_open_ge:
  assumes "(cond, p1) = parseExpr src pos"
  shows "pos \<le> skip src (skipWs src p1) ''}}''"
proof -
  have "pos \<le> p1" using parseExpr_ge [of pos src] assms by (metis snd_conv)
  moreover have "p1 \<le> skip src (skipWs src p1) ''}}''"
    by (meson skipWs_ge skip_ge order_trans)
  ultimately show ?thesis by simp
qed

lemma pair_snd: "(a, b) = f \<Longrightarrow> snd f = b"
  by (metis snd_conv)

lemma parse_nodes_total: "All parseNodes_parseTag_parseIf_parseElifs_parseEach_parseElse_dom"
proof (relation "measure (\<lambda>x. case x of
      Inl (Inl (src, pos, stops)) \<Rightarrow> 2 * (length src - pos)
    | Inl (Inr (Inl (src, pos))) \<Rightarrow> 2 * (length src - pos)
    | Inl (Inr (Inr (src, pos))) \<Rightarrow> 2 * (length src - pos) + 1
    | Inr (Inl (src, pos)) \<Rightarrow> 2 * (length src - pos)
    | Inr (Inr (Inl (src, pos))) \<Rightarrow> 2 * (length src - pos) + 1
    | Inr (Inr (Inr (src, pos, stops))) \<Rightarrow> 2 * (length src - pos))", goal_cases)
  case 1
  show ?case by simp
next
  case (2 src pos stops)
  then show ?case by simp
next
  case (3 src pos stops)
  then show ?case using skipWs_ge [of "pos + 2" src] by simp
next
  case (4 src pos stops n p)
  have "skipWs src (pos + 2) \<le> p"
    using parse_nodes_progress_dom(2) [OF 4(6)] 4(5) by (metis snd_conv)
  then show ?case using skipWs_ge [of "pos + 2" src] 4(1) by simp
next
  case (5 src pos stops tx p)
  have "pos < p"
    using text_loop_gt [OF 5(1,2,3,4), of "[]"] 5(5) by (metis snd_conv)
  then show ?case using 5(1) by simp
next
  case (6 src pos kw p1 p2)
  have "pos < length src" using 6(2) by (rule chr_SomeD)
  moreover have "Suc pos \<le> p2"
    using ident_ge [of "Suc pos" src] 6(3,4) skipWs_ge [of p1 src] by (metis snd_conv order_trans)
  ultimately show ?case by simp
next
  case (7 src pos kw p1 p2)
  have "pos < length src" using 7(2) by (rule chr_SomeD)
  moreover have "Suc pos \<le> p2"
    using ident_ge [of "Suc pos" src] 7(3,4) skipWs_ge [of p1 src] by (metis snd_conv order_trans)
  ultimately show ?case by simp
next
  case (8 src pos cond p1)
  then show ?case using tag_open_ge [of cond p1 src pos] by simp
next
  case prems: (9 src pos cond p1 body p2)
  have d: "parseNodes_parseTag_parseIf_parseElifs_parseEach_parseElse_dom
          (Inl (Inl (src, skip src (skipWs src p1) ''}}'', ifStops)))"
    by (insert prems, assumption)
  have "skip src (skipWs src p1) ''}}'' \<le> p2"
    using parse_nodes_progress_dom(1) [OF d] pair_snd [OF prems(2)] by simp
  then show ?case using tag_open_ge [OF prems(1)] by simp
next
  case prems: (10 src pos cond p1 body p2 elifs p3)
  have d: "parseNodes_parseTag_parseIf_parseElifs_parseEach_parseElse_dom
          (Inl (Inl (src, skip src (skipWs src p1) ''}}'', ifStops)))"
    by (insert prems, assumption)
  have a: "skip src (skipWs src p1) ''}}'' \<le> p2"
    using parse_nodes_progress_dom(1) [OF d] pair_snd [OF prems(2)] by simp
  have d': "parseNodes_parseTag_parseIf_parseElifs_parseEach_parseElse_dom (Inr (Inl (src, p2)))"
    by (insert prems, assumption)
  have b: "p2 \<le> p3"
    using parse_nodes_progress_dom(4) [OF d'] pair_snd [OF prems(3)] by simp
  show ?case using a b tag_open_ge [OF prems(1)] by simp
next
  case prems: (11 src pos p0 cond2 p1)
  have "pos < length src" using prems(1) by (auto dest: at_pos_lt)
  moreover have "pos < p0" using prems(2) by simp
  moreover have "p0 \<le> skip src (skipWs src p1) ''}}''"
    using tag_open_ge [OF prems(3)] skipWs_ge [of p0 src] by simp
  ultimately show ?case by simp
next
  case prems: (12 src pos p0 cond2 p1 body p2)
  have a: "pos < length src" using prems(1) by (auto dest: at_pos_lt)
  have b: "pos < p0" using prems(2) by simp
  have c: "p0 \<le> skip src (skipWs src p1) ''}}''"
    using tag_open_ge [OF prems(3)] skipWs_ge [of p0 src] by simp
  have d: "parseNodes_parseTag_parseIf_parseElifs_parseEach_parseElse_dom
          (Inl (Inl (src, skip src (skipWs src p1) ''}}'', ifStops)))"
    by (insert prems, assumption)
  have "skip src (skipWs src p1) ''}}'' \<le> p2"
    using parse_nodes_progress_dom(1) [OF d] pair_snd [OF prems(4)] by simp
  then show ?case using a b c by simp
next
  case prems: (13 src pos arrExpr p1 asKw p2 p3 itemName p4 p5 idxName p6)
  show ?case
    using each_header_ge [OF prems(1,2,3,5,6,7)] by simp
next
  case prems: (14 src pos arrExpr p1 asKw p2 p3 itemName p4 p5 idxName p6 body p7)
  have d: "parseNodes_parseTag_parseIf_parseElifs_parseEach_parseElse_dom
          (Inl (Inl (src, skip src p6 ''}}'', [''{{:else}}'', ''{{/each}}''])))"
    by (insert prems, assumption)
  have "skip src p6 ''}}'' \<le> p7"
    using parse_nodes_progress_dom(1) [OF d] pair_snd [OF prems(8)] by simp
  then show ?case
    using each_header_ge [OF prems(1,2,3,5,6,7)] by simp
next
  case prems: (15 src pos stops)
  have "pos < length src" using prems(1) by (auto dest: at_pos_lt)
  then show ?case by simp
qed

termination parseNodes
  by (rule parse_nodes_total)

declare parseNodes.simps [simp del] parseTag.simps [simp del] parseIf.simps [simp del]
  parseElifs.simps [simp del] parseEach.simps [simp del] parseElse.simps [simp del]

lemma parseNodes_ge: "pos \<le> snd (parseNodes src pos stops)"
  and parseTag_ge: "pos \<le> snd (parseTag src pos)"
  using parse_nodes_progress_dom(1) [of src pos stops] parse_nodes_progress_dom(2) [of src pos]
    parse_nodes_total
  by auto

lemma parseElifs_ge: "pos \<le> snd (parseElifs src pos)"
  using parse_nodes_progress_dom(4) [of src pos] parse_nodes_total by auto

text \<open>
  \<^verbatim>\<open>compile\<close> parses the template with no stop sequence and returns the function that
  renders the tree; \<^verbatim>\<open>render\<close> is \<^verbatim>\<open>compile(tmpl)(data)\<close>. The host primitives and the
  registrations are the two extra parameters.
\<close>

definition compile :: "host \<Rightarrow> registry \<Rightarrow> string \<Rightarrow> TemplateData \<Rightarrow> string" where
  "compile h reg tmpl = (let ast = fst (parseNodes tmpl 0 []) in (\<lambda>data. rn h reg ast data))"

definition render :: "host \<Rightarrow> registry \<Rightarrow> string \<Rightarrow> TemplateData \<Rightarrow> string" where
  "render h reg tmpl data = compile h reg tmpl data"

section \<open>The call stack of the host\<close>

text \<open>
  \<^verbatim>\<open>parseNodes\<close> calls itself for the body of every block and \<^verbatim>\<open>parseExpr\<close> calls
  itself for every argument of a call, and neither bounds the depth. The host gives each
  activation a frame of its call stack and throws \<^verbatim>\<open>RangeError\<close> (maximum call stack
  size exceeded) when the stack is exhausted; nothing in the engine catches it, so the
  exception is the outcome of \<^verbatim>\<open>compile\<close>. The functions of the previous section
  describe the parse on a stack that never runs out. The functions of this section are
  the same code with the stack threaded through. Their first argument is the number of
  activations of \<^verbatim>\<open>parseNodes\<close> and \<^verbatim>\<open>parseExpr\<close> that the stack still admits (the
  scanning helpers call nothing further and are counted with the activation that calls
  them): entering \<^verbatim>\<open>parseNodes\<close> or \<^verbatim>\<open>parseExpr\<close> with none left is the exception,
  and an exception in a call is the result of the caller. The loops and branches of an
  activation (\<open>nodes_loop_stk\<close> is the outer loop of \<^verbatim>\<open>parseNodes\<close>) run in the frame of
  that activation.
\<close>

datatype error = RangeError

function parseExpr_stk :: "nat \<Rightarrow> string \<Rightarrow> nat \<Rightarrow> error + Expr \<times> nat"
  and parseBase_stk :: "nat \<Rightarrow> string \<Rightarrow> nat \<Rightarrow> error + Expr \<times> nat"
  and parseArgs_stk :: "nat \<Rightarrow> string \<Rightarrow> nat \<Rightarrow> Expr list \<Rightarrow> error + Expr list \<times> nat"
  and parsePipes_stk :: "nat \<Rightarrow> string \<Rightarrow> nat \<Rightarrow> Expr \<Rightarrow> error + Expr \<times> nat"
where
  "parseExpr_stk 0 src pos0 = Inl RangeError"
| "parseExpr_stk (Suc d) src pos0 =
     (let start = skipWs src pos0 in
      case parseBase_stk d src start of
        Inl err \<Rightarrow> Inl err
      | Inr (expr, pos1) \<Rightarrow>
          (case parsePipes_stk d src (skipWs src pos1) expr of
             Inl err \<Rightarrow> Inl err
           | Inr (expr', pos2) \<Rightarrow>
               Inr (expr', if pos2 = start \<and> pos2 < length src then Suc pos2 else pos2)))"
| "parseBase_stk d src pos =
     (let ch = chr src pos in
      if ch = Some (CHR 0x22) \<or> ch = Some (CHR 0x27) then Inr (string_literal src pos)
      else if (case ch of Some c \<Rightarrow> c = CHR ''-'' \<or> isDigit c \<or> c = CHR ''.'' | None \<Rightarrow> False)
      then Inr (number_literal src pos)
      else
        (case ident src pos of
           (name, p) \<Rightarrow>
             if name = ''true'' then Inr (L (VBool True), p)
             else if name = ''false'' then Inr (L (VBool False), p)
             else if name = ''null'' then Inr (L VNull, p)
             else
               (let p1 = skipWs src p in
                if chr src p1 = Some CHR ''(''
                then (case parseArgs_stk d src (skipWs src (Suc p1)) [] of
                        Inl err \<Rightarrow> Inl err
                      | Inr (args, p2) \<Rightarrow>
                          Inr (C name args, if chr src p2 = Some CHR '')'' then Suc p2 else p2))
                else (case path_loop src p1 [name] of (path, p2) \<Rightarrow> Inr (V path, p2)))))"
| "parseArgs_stk d src pos args =
     (if pos < length src \<and> src ! pos \<noteq> CHR '')'' \<and> src ! pos \<noteq> CHR ''}''
      then (case parseExpr_stk d src pos of
              Inl err \<Rightarrow> Inl err
            | Inr (e, p1) \<Rightarrow>
                (let p2 = skipWs src p1;
                     p3 = (if chr src p2 = Some CHR '','' then skipWs src (Suc p2) else p2)
                 in parseArgs_stk d src p3 (args @ [e])))
      else Inr (args, pos))"
| "parsePipes_stk d src pos expr =
     (if chr src pos = Some CHR ''|''
      then (let p1 = skipWs src (Suc pos) in
            case ident src p1 of
              (fn, p2) \<Rightarrow>
                (let p3 = skipWs src p2 in
                 case (if chr src p3 = Some CHR ''(''
                       then (case parseArgs_stk d src (skipWs src (Suc p3)) [] of
                               Inl err \<Rightarrow> Inl err
                             | Inr (args, p4) \<Rightarrow>
                                 Inr (args, if chr src p4 = Some CHR '')'' then Suc p4 else p4))
                       else Inr ([], p3))
                 of Inl err \<Rightarrow> Inl err
                  | Inr (args, p5) \<Rightarrow> parsePipes_stk d src (skipWs src p5) (P expr fn args)))
      else Inr (expr, pos))"
  by pat_completeness auto

text \<open>
  On their domain the functions return the exception or the result of the parse on an
  unbounded stack; with this, the recursion is well-founded for the reason it is there.
\<close>

lemma parse_expr_stk_refines_dom:
  "parseExpr_stk_parseBase_stk_parseArgs_stk_parsePipes_stk_dom (Inl (Inl (n, src, pos0))) \<Longrightarrow>
     parseExpr_stk n src pos0 = Inl RangeError \<or> parseExpr_stk n src pos0 = Inr (parseExpr src pos0)"
  "parseExpr_stk_parseBase_stk_parseArgs_stk_parsePipes_stk_dom (Inl (Inr (d, src, pos))) \<Longrightarrow>
     parseBase_stk d src pos = Inl RangeError \<or> parseBase_stk d src pos = Inr (parseBase src pos)"
  "parseExpr_stk_parseBase_stk_parseArgs_stk_parsePipes_stk_dom (Inr (Inl (d, src, pos, args))) \<Longrightarrow>
     parseArgs_stk d src pos args = Inl RangeError
     \<or> parseArgs_stk d src pos args = Inr (parseArgs src pos args)"
  "parseExpr_stk_parseBase_stk_parseArgs_stk_parsePipes_stk_dom (Inr (Inr (d, src, pos, expr))) \<Longrightarrow>
     parsePipes_stk d src pos expr = Inl RangeError
     \<or> parsePipes_stk d src pos expr = Inr (parsePipes src pos expr)"
proof (induct rule: parseExpr_stk_parseBase_stk_parseArgs_stk_parsePipes_stk.pinduct)
  case (1 src pos0)
  then show ?case by (simp add: parseExpr_stk.psimps)
next
  case (2 d src pos0)
  define start where "start = skipWs src pos0"
  obtain expr pos1 where b: "parseBase src start = (expr, pos1)" by (cases "parseBase src start")
  obtain expr' pos2 where p: "parsePipes src (skipWs src pos1) expr = (expr', pos2)"
    by (cases "parsePipes src (skipWs src pos1) expr")
  have e: "parseExpr src pos0 = (expr', if pos2 = start \<and> pos2 < length src then Suc pos2 else pos2)"
    by (subst parseExpr.simps) (simp add: start_def [symmetric] b p)
  from 2(2) [OF start_def] show ?case
  proof
    assume "parseBase_stk d src start = Inl RangeError"
    then show ?thesis by (simp add: parseExpr_stk.psimps(2) [OF 2(1)] start_def [symmetric])
  next
    assume sb: "parseBase_stk d src start = Inr (parseBase src start)"
    from 2(3) [OF start_def sb b [symmetric]] show ?thesis
    proof
      assume "parsePipes_stk d src (skipWs src pos1) expr = Inl RangeError"
      then show ?thesis
        by (simp add: parseExpr_stk.psimps(2) [OF 2(1)] start_def [symmetric] sb b)
    next
      assume "parsePipes_stk d src (skipWs src pos1) expr = Inr (parsePipes src (skipWs src pos1) expr)"
      then show ?thesis
        by (simp add: parseExpr_stk.psimps(2) [OF 2(1)] start_def [symmetric] sb b p e)
    qed
  qed
next
  case (3 d src pos)
  show ?case
  proof (cases "chr src pos = Some (CHR 0x22) \<or> chr src pos = Some (CHR 0x27)")
    case True
    then show ?thesis
      by (subst parseBase.simps) (simp add: parseBase_stk.psimps [OF 3(1)])
  next
    case nq: False
    show ?thesis
    proof (cases "case chr src pos of Some c \<Rightarrow> c = CHR ''-'' \<or> isDigit c \<or> c = CHR ''.''
                  | None \<Rightarrow> False")
      case True
      then show ?thesis
        using nq by (subst parseBase.simps) (simp add: parseBase_stk.psimps [OF 3(1)])
    next
      case nn: False
      obtain name p where ip: "ident src pos = (name, p)" by (cases "ident src pos")
      show ?thesis
      proof (cases "name = ''true'' \<or> name = ''false'' \<or> name = ''null''")
        case True
        then show ?thesis
          using nq nn ip by (subst parseBase.simps) (auto simp add: parseBase_stk.psimps [OF 3(1)])
      next
        case kw: False
        define p1 where "p1 = skipWs src p"
        show ?thesis
        proof (cases "chr src p1 = Some CHR ''(''")
          case True
          have "parseArgs_stk d src (skipWs src (Suc p1)) [] = Inl RangeError
            \<or> parseArgs_stk d src (skipWs src (Suc p1)) [] = Inr (parseArgs src (skipWs src (Suc p1)) [])"
            using 3(2) [OF refl nq nn ip [symmetric] _ _ _ p1_def True] kw by simp
          then show ?thesis
            using nq nn ip kw True
            by (subst parseBase.simps)
               (auto simp add: parseBase_stk.psimps [OF 3(1)] p1_def [symmetric] split: prod.splits)
        next
          case False
          then show ?thesis
            using nq nn ip kw
            by (subst parseBase.simps)
               (auto simp add: parseBase_stk.psimps [OF 3(1)] p1_def [symmetric] split: prod.splits)
        qed
      qed
    qed
  qed
next
  case (4 d src pos args)
  show ?case
  proof (cases "pos < length src \<and> src ! pos \<noteq> CHR '')'' \<and> src ! pos \<noteq> CHR ''}''")
    case True
    obtain e p1 where ep: "parseExpr src pos = (e, p1)" by (cases "parseExpr src pos")
    define p2 where "p2 = skipWs src p1"
    define p3 where "p3 = (if chr src p2 = Some CHR '','' then skipWs src (Suc p2) else p2)"
    have i: "parseArgs src pos args = parseArgs src p3 (args @ [e])"
      using True unfolding p3_def p2_def
      by (subst parseArgs.simps) (simp add: ep Let_def)
    from 4(2) [OF True] show ?thesis
    proof
      assume "parseExpr_stk d src pos = Inl RangeError"
      then show ?thesis using True by (simp add: parseArgs_stk.psimps [OF 4(1)])
    next
      assume se: "parseExpr_stk d src pos = Inr (parseExpr src pos)"
      have "parseArgs_stk d src pos args = parseArgs_stk d src p3 (args @ [e])"
        using True unfolding p3_def p2_def
        by (simp add: parseArgs_stk.psimps [OF 4(1)] se ep Let_def)
      then show ?thesis
        using 4(3) [OF True se ep [symmetric] p2_def p3_def] i by simp
    qed
  next
    case False
    then show ?thesis
      by (subst parseArgs.simps) (auto simp add: parseArgs_stk.psimps [OF 4(1)])
  qed
next
  case (5 d src pos expr)
  show ?case
  proof (cases "chr src pos = Some CHR ''|''")
    case True
    define p1 where "p1 = skipWs src (Suc pos)"
    obtain fn p2 where ip: "ident src p1 = (fn, p2)" by (cases "ident src p1")
    define p3 where "p3 = skipWs src p2"
    define r where "r = (if chr src p3 = Some CHR ''(''
                       then (case parseArgs src (skipWs src (Suc p3)) [] of
                               (args, p4) \<Rightarrow>
                                 (args, if chr src p4 = Some CHR '')'' then Suc p4 else p4))
                       else ([], p3))"
    define rs where "rs = (if chr src p3 = Some CHR ''(''
                       then (case parseArgs_stk d src (skipWs src (Suc p3)) [] of
                               Inl err \<Rightarrow> Inl err
                             | Inr (args, p4) \<Rightarrow>
                                 Inr (args, if chr src p4 = Some CHR '')'' then Suc p4 else p4))
                       else Inr ([], p3))"
    obtain args p5 where r: "r = (args, p5)" by (cases r)
    have i: "parsePipes src pos expr = parsePipes src (skipWs src p5) (P expr fn args)"
      using True r unfolding r_def p3_def p1_def
      by (subst parsePipes.simps) (simp add: ip [unfolded p1_def] Let_def)
    have s: "parsePipes_stk d src pos expr =
        (case rs of Inl err \<Rightarrow> Inl err
         | Inr (args, p5) \<Rightarrow> parsePipes_stk d src (skipWs src p5) (P expr fn args))"
      using True unfolding rs_def p3_def p1_def
      by (simp add: parsePipes_stk.psimps [OF 5(1)] ip [unfolded p1_def] Let_def)
    have "rs = Inl RangeError \<or> rs = Inr r"
    proof (cases "chr src p3 = Some CHR ''(''")
      case lp: True
      from 5(2) [OF True p1_def ip [symmetric] p3_def lp] show ?thesis
        using lp by (auto simp: rs_def r_def split: prod.splits)
    next
      case False
      then show ?thesis by (simp add: rs_def r_def)
    qed
    then show ?thesis
    proof
      assume "rs = Inl RangeError"
      then show ?thesis by (simp add: s)
    next
      assume rr: "rs = Inr r"
      have "parsePipes_stk d src (skipWs src p5) (P expr fn args) = Inl RangeError
        \<or> parsePipes_stk d src (skipWs src p5) (P expr fn args)
            = Inr (parsePipes src (skipWs src p5) (P expr fn args))"
        using 5(3) [OF True p1_def ip [symmetric] p3_def rr [unfolded rs_def r] refl] .
      then show ?thesis by (simp add: s rr r i)
    qed
  next
    case False
    then show ?thesis
      by (subst parsePipes.simps) (simp add: parsePipes_stk.psimps [OF 5(1)])
  qed
qed

lemma parse_expr_stk_total: "All parseExpr_stk_parseBase_stk_parseArgs_stk_parsePipes_stk_dom"
proof (relation "measure (\<lambda>x. case x of
      Inl (Inl (n, src, pos)) \<Rightarrow> 4 * (length src - pos) + 2
    | Inl (Inr (d, src, pos)) \<Rightarrow> 4 * (length src - pos) + 1
    | Inr (Inl (d, src, pos, args)) \<Rightarrow> 4 * (length src - pos) + 3
    | Inr (Inr (d, src, pos, expr)) \<Rightarrow> 4 * (length src - pos))", goal_cases)
  case 1
  show ?case by simp
next
  case (2 d src pos0 start)
  then show ?case using skipWs_ge [of pos0 src] by simp
next
  case (3 d src pos0 start b expr pos1)
  have "b = parseBase src start"
    using parse_expr_stk_refines_dom(2) [OF 3(4)] 3(2) by simp
  then have "start \<le> pos1"
    using parseBase_ge [of start src] 3(3) by (metis snd_conv)
  then show ?case
    using skipWs_ge [of pos0 src] skipWs_ge [of pos1 src] 3(1) by simp
next
  case (4 d src pos ch name p p1)
  have "pos \<le> p" using ident_ge [of pos src] 4(4) by (metis snd_conv)
  moreover have "p \<le> p1" "p1 < length src"
    using 4(8,9) skipWs_ge [of p src] by (auto dest: chr_SomeD)
  moreover have "Suc p1 \<le> skipWs src (Suc p1)" by (rule skipWs_ge)
  ultimately show ?case by simp
next
  case (5 d src pos args)
  then show ?case by simp
next
  case (6 d src pos args b e p1 p2 p3)
  have "b = parseExpr src pos"
    using parse_expr_stk_refines_dom(1) [OF 6(6)] 6(2) by simp
  then have "pos < p1"
    using parseExpr_gt [of pos src] 6(1,3) by (metis snd_conv)
  moreover have "p1 \<le> p3"
    using 6(4,5) skipWs_ge [of p1 src] skipWs_ge [of "Suc p2" src] by (auto split: if_splits)
  ultimately show ?case using 6(1) by auto
next
  case (7 d src pos expr p1 fn p2 p3)
  have "pos < length src" using 7(1) by (rule chr_SomeD)
  moreover have "Suc pos \<le> p1" "p1 \<le> p2" "p2 \<le> p3" "p3 < length src"
    using 7 skipWs_ge [of "Suc pos" src] ident_ge [of p1 src] skipWs_ge [of p2 src]
    by (auto dest: chr_SomeD) (metis snd_conv)
  moreover have "Suc p3 \<le> skipWs src (Suc p3)" by (rule skipWs_ge)
  ultimately show ?case by simp
next
  case (8 d src pos expr p1 fn p2 p3 b args p5)
  have "pos < length src" using 8(1) by (rule chr_SomeD)
  moreover have "Suc pos \<le> p1" "p1 \<le> p2" "p2 \<le> p3"
    using 8(2,3,4) skipWs_ge [of "Suc pos" src] ident_ge [of p1 src] skipWs_ge [of p2 src]
    by auto (metis snd_conv)
  moreover have "p3 \<le> p5"
  proof (cases "chr src p3 = Some CHR ''(''")
    case True
    have "parseArgs_stk d src (skipWs src (Suc p3)) [] = Inl RangeError
      \<or> parseArgs_stk d src (skipWs src (Suc p3)) []
          = Inr (parseArgs src (skipWs src (Suc p3)) [])"
      using parse_expr_stk_refines_dom(3) [OF 8(7) [OF True]] .
    moreover obtain as p4 where ap: "parseArgs src (skipWs src (Suc p3)) [] = (as, p4)"
      by (cases "parseArgs src (skipWs src (Suc p3)) []")
    moreover have "skipWs src (Suc p3) \<le> p4"
      using parseArgs_ge [of "skipWs src (Suc p3)" src "[]"] ap by simp
    ultimately show ?thesis
      using 8(5,6) True skipWs_ge [of "Suc p3" src] by (auto split: if_splits)
  next
    case False
    then show ?thesis using 8(5,6) by auto
  qed
  moreover have "p5 \<le> skipWs src p5" by (rule skipWs_ge)
  ultimately show ?case by simp
qed

termination parseExpr_stk
  by (rule parse_expr_stk_total)

declare parseExpr_stk.simps [simp del] parseBase_stk.simps [simp del]
  parseArgs_stk.simps [simp del] parsePipes_stk.simps [simp del]

lemma parseExpr_stk_refines:
  "parseExpr_stk n src pos = Inl RangeError \<or> parseExpr_stk n src pos = Inr (parseExpr src pos)"
  using parse_expr_stk_refines_dom(1) [of n src pos] parse_expr_stk_total by auto

lemma parseExpr_stk_InrD: "parseExpr_stk d src pos = Inr b \<Longrightarrow> b = parseExpr src pos"
  using parseExpr_stk_refines [of d src pos] by simp

function parseNodes_stk :: "nat \<Rightarrow> string \<Rightarrow> nat \<Rightarrow> string list \<Rightarrow> error + Node list \<times> nat"
  and nodes_loop_stk :: "nat \<Rightarrow> string \<Rightarrow> nat \<Rightarrow> string list \<Rightarrow> error + Node list \<times> nat"
  and parseTag_stk :: "nat \<Rightarrow> string \<Rightarrow> nat \<Rightarrow> error + Node \<times> nat"
  and parseIf_stk :: "nat \<Rightarrow> string \<Rightarrow> nat \<Rightarrow> error + Node \<times> nat"
  and parseElifs_stk :: "nat \<Rightarrow> string \<Rightarrow> nat \<Rightarrow> error + (Expr \<times> Node list) list \<times> nat"
  and parseEach_stk :: "nat \<Rightarrow> string \<Rightarrow> nat \<Rightarrow> error + Node \<times> nat"
  and parseElse_stk :: "nat \<Rightarrow> string \<Rightarrow> nat \<Rightarrow> string list \<Rightarrow> error + Node list option \<times> nat"
where
  "parseNodes_stk 0 src pos stops = Inl RangeError"
| "parseNodes_stk (Suc d) src pos stops = nodes_loop_stk d src pos stops"
| "nodes_loop_stk d src pos stops =
     (if pos < length src
      then (if list_ex (at_pos src pos) stops then Inr ([], pos)
            else if src ! pos = CHR 0x5C \<and> at_pos src pos escOpen
            then (case nodes_loop_stk d src (pos + 3) stops of
                    Inl err \<Rightarrow> Inl err
                  | Inr (ns, p) \<Rightarrow> Inr (T ''{{'' # ns, p))
            else if at_pos src pos ''{{''
            then (case parseTag_stk d src (skipWs src (pos + 2)) of
                    Inl err \<Rightarrow> Inl err
                  | Inr (n, p) \<Rightarrow>
                      (case nodes_loop_stk d src p stops of
                         Inl err \<Rightarrow> Inl err
                       | Inr (ns, p') \<Rightarrow> Inr (n # ns, p')))
            else (case text_loop src pos stops [] of
                    (text, p) \<Rightarrow>
                      (case nodes_loop_stk d src p stops of
                         Inl err \<Rightarrow> Inl err
                       | Inr (ns, p') \<Rightarrow> Inr ((if text \<noteq> [] then [T text] else []) @ ns, p'))))
      else Inr ([], pos))"
| "parseTag_stk d src pos =
     (if chr src pos = Some CHR ''+''
      then (case parseExpr_stk d src (skipWs src (Suc pos)) of
              Inl err \<Rightarrow> Inl err
            | Inr (expr, p1) \<Rightarrow>
                Inr (I expr True,
                     skip src (scan_close src (skipWs src (skip src (skipWs src p1) ''+''))) ''}}''))
      else if chr src pos = Some CHR ''#''
      then (case ident src (Suc pos) of
              (kw, p1) \<Rightarrow>
                (let p2 = skipWs src p1 in
                 if kw = ''if'' then parseIf_stk d src p2
                 else if kw = ''each'' then parseEach_stk d src p2
                 else Inr (T (''[Error: unknown #'' @ kw @ '']''), skip src (skipWs src p2) ''}}'')))
      else (case parseExpr_stk d src pos of
              Inl err \<Rightarrow> Inl err
            | Inr (expr, p1) \<Rightarrow>
                Inr (I expr False, skip src (scan_close src (skipWs src p1)) ''}}'')))"
| "parseIf_stk d src pos =
     (case parseExpr_stk d src pos of
        Inl err \<Rightarrow> Inl err
      | Inr (cond, p1) \<Rightarrow>
          (case parseNodes_stk d src (skip src (skipWs src p1) ''}}'') ifStops of
             Inl err \<Rightarrow> Inl err
           | Inr (body, p2) \<Rightarrow>
               (case parseElifs_stk d src p2 of
                  Inl err \<Rightarrow> Inl err
                | Inr (elifs, p3) \<Rightarrow>
                    (case parseElse_stk d src p3 [''{{/if}}''] of
                       Inl err \<Rightarrow> Inl err
                     | Inr (elseBody, p4) \<Rightarrow>
                         Inr (F ((cond, body) # elifs) elseBody, skip src p4 ''{{/if}}'')))))"
| "parseElifs_stk d src pos =
     (if at_pos src pos ''{{:else if'' \<or> at_pos src pos ''{{:elseif''
      then (let p0 = pos + (if at_pos src pos ''{{:elseif'' then 9 else 10) in
            case parseExpr_stk d src (skipWs src p0) of
              Inl err \<Rightarrow> Inl err
            | Inr (cond2, p1) \<Rightarrow>
                (case parseNodes_stk d src (skip src (skipWs src p1) ''}}'') ifStops of
                   Inl err \<Rightarrow> Inl err
                 | Inr (body, p2) \<Rightarrow>
                     (case parseElifs_stk d src p2 of
                        Inl err \<Rightarrow> Inl err
                      | Inr (elifs, p3) \<Rightarrow> Inr ((cond2, body) # elifs, p3))))
      else Inr ([], pos))"
| "parseEach_stk d src pos =
     (case parseExpr_stk d src pos of
        Inl err \<Rightarrow> Inl err
      | Inr (arrExpr, p1) \<Rightarrow>
          (case ident src (skipWs src p1) of
             (asKw, p2) \<Rightarrow>
               (let p3 = skipWs src p2 in
                if asKw \<noteq> ''as'' then Inr (T missingAs, p3)
                else
                  (case ident src p3 of
                     (itemName, p4) \<Rightarrow>
                       (let p5 = skipWs src p4 in
                        case (if chr src p5 = Some CHR '',''
                              then (case ident src (skipWs src (Suc p5)) of
                                      (nm, q) \<Rightarrow> (Some nm, skipWs src q))
                              else (None, p5))
                        of (idxName, p6) \<Rightarrow>
                          (case parseNodes_stk d src (skip src p6 ''}}'')
                                  [''{{:else}}'', ''{{/each}}''] of
                             Inl err \<Rightarrow> Inl err
                           | Inr (body, p7) \<Rightarrow>
                               (case parseElse_stk d src p7 [''{{/each}}''] of
                                  Inl err \<Rightarrow> Inl err
                                | Inr (elseBody, p8) \<Rightarrow>
                                    Inr (E arrExpr itemName idxName body elseBody,
                                         skip src p8 ''{{/each}}''))))))))"
| "parseElse_stk d src pos stops =
     (if at_pos src pos ''{{:else}}''
      then (case parseNodes_stk d src (pos + 9) stops of
              Inl err \<Rightarrow> Inl err
            | Inr (eb, p) \<Rightarrow> Inr (Some eb, p))
      else Inr (None, pos))"
  by pat_completeness auto

lemma parse_nodes_stk_refines_dom:
  "parseNodes_stk_nodes_loop_stk_parseTag_stk_parseIf_stk_parseElifs_stk_parseEach_stk_parseElse_stk_dom (Inl (Inl (n, src, pos, stops))) \<Longrightarrow>
     parseNodes_stk n src pos stops = Inl RangeError
     \<or> parseNodes_stk n src pos stops = Inr (parseNodes src pos stops)"
  "parseNodes_stk_nodes_loop_stk_parseTag_stk_parseIf_stk_parseElifs_stk_parseEach_stk_parseElse_stk_dom (Inl (Inr (Inl (d, src, pos, stops)))) \<Longrightarrow>
     nodes_loop_stk d src pos stops = Inl RangeError
     \<or> nodes_loop_stk d src pos stops = Inr (parseNodes src pos stops)"
  "parseNodes_stk_nodes_loop_stk_parseTag_stk_parseIf_stk_parseElifs_stk_parseEach_stk_parseElse_stk_dom (Inl (Inr (Inr (d, src, pos)))) \<Longrightarrow>
     parseTag_stk d src pos = Inl RangeError \<or> parseTag_stk d src pos = Inr (parseTag src pos)"
  "parseNodes_stk_nodes_loop_stk_parseTag_stk_parseIf_stk_parseElifs_stk_parseEach_stk_parseElse_stk_dom (Inr (Inl (Inl (d, src, pos)))) \<Longrightarrow>
     parseIf_stk d src pos = Inl RangeError \<or> parseIf_stk d src pos = Inr (parseIf src pos)"
  "parseNodes_stk_nodes_loop_stk_parseTag_stk_parseIf_stk_parseElifs_stk_parseEach_stk_parseElse_stk_dom (Inr (Inl (Inr (d, src, pos)))) \<Longrightarrow>
     parseElifs_stk d src pos = Inl RangeError
     \<or> parseElifs_stk d src pos = Inr (parseElifs src pos)"
  "parseNodes_stk_nodes_loop_stk_parseTag_stk_parseIf_stk_parseElifs_stk_parseEach_stk_parseElse_stk_dom (Inr (Inr (Inl (d, src, pos)))) \<Longrightarrow>
     parseEach_stk d src pos = Inl RangeError \<or> parseEach_stk d src pos = Inr (parseEach src pos)"
  "parseNodes_stk_nodes_loop_stk_parseTag_stk_parseIf_stk_parseElifs_stk_parseEach_stk_parseElse_stk_dom (Inr (Inr (Inr (d, src, pos, stops)))) \<Longrightarrow>
     parseElse_stk d src pos stops = Inl RangeError
     \<or> parseElse_stk d src pos stops = Inr (parseElse src pos stops)"
proof (induct rule: parseNodes_stk_nodes_loop_stk_parseTag_stk_parseIf_stk_parseElifs_stk_parseEach_stk_parseElse_stk.pinduct)
  case (1 src pos stops)
  then show ?case by (simp add: parseNodes_stk.psimps)
next
  case (2 d src pos stops)
  then show ?case by (simp add: parseNodes_stk.psimps)
next
  case (3 d src pos stops)
  note ps = nodes_loop_stk.psimps [OF 3(1)]
  show ?case
  proof (cases "pos < length src \<and> \<not> list_ex (at_pos src pos) stops")
    case False
    then show ?thesis by (subst parseNodes.simps) (auto simp add: ps)
  next
    case True
    then have lt: "pos < length src" and ns: "\<not> list_ex (at_pos src pos) stops" by simp_all
    show ?thesis
    proof (cases "src ! pos = CHR 0x5C \<and> at_pos src pos escOpen")
      case esc: True
      obtain ms p where r: "parseNodes src (pos + 3) stops = (ms, p)"
        by (cases "parseNodes src (pos + 3) stops")
      have i: "parseNodes src pos stops = (T ''{{'' # ms, p)"
        using lt ns esc by (subst parseNodes.simps) (simp add: r)
      from 3(2) [OF lt ns esc] show ?thesis
        using lt ns esc by (auto simp add: ps i r)
    next
      case ne: False
      show ?thesis
      proof (cases "at_pos src pos ''{{''")
        case tg: True
        obtain n p where t: "parseTag src (skipWs src (pos + 2)) = (n, p)"
          by (cases "parseTag src (skipWs src (pos + 2))")
        obtain ms p' where r: "parseNodes src p stops = (ms, p')"
          by (cases "parseNodes src p stops")
        have i: "parseNodes src pos stops = (n # ms, p')"
          using lt ns ne tg t r by (subst parseNodes.simps) auto
        from 3(3) [OF lt ns ne tg] show ?thesis
        proof
          assume "parseTag_stk d src (skipWs src (pos + 2)) = Inl RangeError"
          then show ?thesis using lt ns ne tg by (auto simp add: ps)
        next
          assume st: "parseTag_stk d src (skipWs src (pos + 2)) = Inr (parseTag src (skipWs src (pos + 2)))"
          from 3(4) [OF lt ns ne tg st t [symmetric]] show ?thesis
            using lt ns ne tg st t r by (auto simp add: ps i)
        qed
      next
        case nt: False
        obtain tx p where t: "text_loop src pos stops [] = (tx, p)"
          by (cases "text_loop src pos stops []")
        obtain ms p' where r: "parseNodes src p stops = (ms, p')"
          by (cases "parseNodes src p stops")
        have i: "parseNodes src pos stops = ((if tx \<noteq> [] then [T tx] else []) @ ms, p')"
          using lt ns ne nt t r by (subst parseNodes.simps) auto
        from 3(5) [OF lt ns ne nt t [symmetric]] show ?thesis
          using lt ns ne nt by (auto simp add: ps t r i)
      qed
    qed
  qed
next
  case (4 d src pos)
  note ps = parseTag_stk.psimps [OF 4(1)]
  show ?case
  proof (cases "chr src pos = Some CHR ''+''")
    case True
    then show ?thesis
      using parseExpr_stk_refines [of d src "skipWs src (Suc pos)"]
      by (subst parseTag.simps) (auto simp add: ps split: prod.splits)
  next
    case np: False
    show ?thesis
    proof (cases "chr src pos = Some CHR ''#''")
      case True
      obtain kw p1 where k: "ident src (Suc pos) = (kw, p1)" by (cases "ident src (Suc pos)")
      define p2 where "p2 = skipWs src p1"
      show ?thesis
      proof (cases "kw = ''if''")
        case kif: True
        from 4(2) [OF np True k [symmetric] p2_def kif] show ?thesis
          using np True k kif
          by (subst parseTag.simps) (auto simp add: ps p2_def [symmetric])
      next
        case nif: False
        show ?thesis
        proof (cases "kw = ''each''")
          case keach: True
          from 4(3) [OF np True k [symmetric] p2_def nif keach] show ?thesis
            using np True k nif keach
            by (subst parseTag.simps) (auto simp add: ps p2_def [symmetric])
        next
          case False
          then show ?thesis
            using np True k nif
            by (subst parseTag.simps) (auto simp add: ps p2_def [symmetric])
        qed
      qed
    next
      case False
      then show ?thesis
        using np parseExpr_stk_refines [of d src pos]
        by (subst parseTag.simps) (auto simp add: ps split: prod.splits)
    qed
  qed
next
  case (5 d src pos)
  note ps = parseIf_stk.psimps [OF 5(1)]
  obtain cond p1 where e: "parseExpr src pos = (cond, p1)" by (cases "parseExpr src pos")
  define q where "q = skip src (skipWs src p1) ''}}''"
  obtain body p2 where b: "parseNodes src q ifStops = (body, p2)"
    by (cases "parseNodes src q ifStops")
  obtain elifs p3 where m: "parseElifs src p2 = (elifs, p3)" by (cases "parseElifs src p2")
  obtain elseBody p4 where l: "parseElse src p3 [''{{/if}}''] = (elseBody, p4)"
    by (cases "parseElse src p3 [''{{/if}}'']")
  have i: "parseIf src pos = (F ((cond, body) # elifs) elseBody, skip src p4 ''{{/if}}'')"
    by (subst parseIf.simps) (simp add: e b [unfolded q_def] m l)
  from parseExpr_stk_refines [of d src pos] show ?case
  proof
    assume "parseExpr_stk d src pos = Inl RangeError"
    then show ?thesis by (simp add: ps)
  next
    assume se: "parseExpr_stk d src pos = Inr (parseExpr src pos)"
    from 5(2) [OF se e [symmetric]] show ?thesis
    proof
      assume "parseNodes_stk d src (skip src (skipWs src p1) ''}}'') ifStops = Inl RangeError"
      then show ?thesis by (simp add: ps se e)
    next
      assume sb: "parseNodes_stk d src (skip src (skipWs src p1) ''}}'') ifStops
                  = Inr (parseNodes src (skip src (skipWs src p1) ''}}'') ifStops)"
      from 5(3) [OF se e [symmetric] sb b [unfolded q_def, symmetric]] show ?thesis
      proof
        assume "parseElifs_stk d src p2 = Inl RangeError"
        then show ?thesis by (simp add: ps se e sb b [unfolded q_def])
      next
        assume sm: "parseElifs_stk d src p2 = Inr (parseElifs src p2)"
        from 5(4) [OF se e [symmetric] sb b [unfolded q_def, symmetric] sm m [symmetric]]
        show ?thesis
          by (auto simp add: ps se e sb b [unfolded q_def] sm m l i)
      qed
    qed
  qed
next
  case (6 d src pos)
  note ps = parseElifs_stk.psimps [OF 6(1)]
  show ?case
  proof (cases "at_pos src pos ''{{:else if'' \<or> at_pos src pos ''{{:elseif''")
    case True
    define p0 where "p0 = pos + (if at_pos src pos ''{{:elseif'' then 9 else 10)"
    obtain cond2 p1 where e: "parseExpr src (skipWs src p0) = (cond2, p1)"
      by (cases "parseExpr src (skipWs src p0)")
    define q where "q = skip src (skipWs src p1) ''}}''"
    obtain body p2 where b: "parseNodes src q ifStops = (body, p2)"
      by (cases "parseNodes src q ifStops")
    obtain elifs p3 where m: "parseElifs src p2 = (elifs, p3)" by (cases "parseElifs src p2")
    have i: "parseElifs src pos = ((cond2, body) # elifs, p3)"
      using True
      by (subst parseElifs.simps) (simp add: Let_def e [unfolded p0_def] b [unfolded q_def] m)
    from parseExpr_stk_refines [of d src "skipWs src p0"] show ?thesis
    proof
      assume "parseExpr_stk d src (skipWs src p0) = Inl RangeError"
      then show ?thesis using True by (simp add: ps Let_def p0_def)
    next
      assume se: "parseExpr_stk d src (skipWs src p0) = Inr (parseExpr src (skipWs src p0))"
      from 6(2) [OF True p0_def se e [symmetric]] show ?thesis
      proof
        assume "parseNodes_stk d src (skip src (skipWs src p1) ''}}'') ifStops = Inl RangeError"
        then show ?thesis using True se [unfolded p0_def] e [unfolded p0_def]
          by (simp add: ps Let_def)
      next
        assume sb: "parseNodes_stk d src (skip src (skipWs src p1) ''}}'') ifStops
                    = Inr (parseNodes src (skip src (skipWs src p1) ''}}'') ifStops)"
        from 6(3) [OF True p0_def se e [symmetric] sb b [unfolded q_def, symmetric]]
        show ?thesis
          using True se [unfolded p0_def] e [unfolded p0_def]
          by (auto simp add: ps Let_def sb b [unfolded q_def] m i)
      qed
    qed
  next
    case False
    then show ?thesis by (subst parseElifs.simps) (auto simp add: ps)
  qed
next
  case (7 d src pos)
  note ps = parseEach_stk.psimps [OF 7(1)]
  obtain arrExpr p1 where e: "parseExpr src pos = (arrExpr, p1)" by (cases "parseExpr src pos")
  obtain asKw p2 where k: "ident src (skipWs src p1) = (asKw, p2)"
    by (cases "ident src (skipWs src p1)")
  define p3 where "p3 = skipWs src p2"
  from parseExpr_stk_refines [of d src pos] show ?case
  proof
    assume "parseExpr_stk d src pos = Inl RangeError"
    then show ?thesis by (simp add: ps)
  next
    assume se: "parseExpr_stk d src pos = Inr (parseExpr src pos)"
    show ?thesis
    proof (cases "asKw = ''as''")
      case False
      then show ?thesis
        by (subst parseEach.simps) (simp add: ps se e k)
    next
      case True
      obtain itemName p4 where it: "ident src p3 = (itemName, p4)" by (cases "ident src p3")
      define p5 where "p5 = skipWs src p4"
      define ix where "ix = (if chr src p5 = Some CHR '',''
                              then (case ident src (skipWs src (Suc p5)) of
                                      (nm, q) \<Rightarrow> (Some nm, skipWs src q))
                              else (None, p5))"
      obtain idxName p6 where x: "ix = (idxName, p6)" by (cases ix)
      define st where "st = [''{{:else}}'', ''{{/each}}'']"
      obtain body p7 where b: "parseNodes src (skip src p6 ''}}'') st = (body, p7)"
        by (cases "parseNodes src (skip src p6 ''}}'') st")
      obtain elseBody p8 where l: "parseElse src p7 [''{{/each}}''] = (elseBody, p8)"
        by (cases "parseElse src p7 [''{{/each}}'']")
      have nn: "\<not> asKw \<noteq> ''as''" using True by simp
      have i: "parseEach src pos =
          (E arrExpr itemName idxName body elseBody, skip src p8 ''{{/each}}'')"
        using True x [unfolded ix_def p5_def] it [unfolded p3_def] b [unfolded st_def]
        by (subst parseEach.simps) (simp add: e k Let_def l)
      have s: "parseEach_stk d src pos =
          (case parseNodes_stk d src (skip src p6 ''}}'') st of
             Inl err \<Rightarrow> Inl err
           | Inr (body, p7) \<Rightarrow>
               (case parseElse_stk d src p7 [''{{/each}}''] of
                  Inl err \<Rightarrow> Inl err
                | Inr (elseBody, p8) \<Rightarrow>
                    Inr (E arrExpr itemName idxName body elseBody, skip src p8 ''{{/each}}'')))"
        using True x [unfolded ix_def p5_def] it [unfolded p3_def]
        by (simp add: ps se e k Let_def st_def)
      from 7(2) [OF se e [symmetric] k [symmetric] p3_def nn it [symmetric] p5_def
                    x [unfolded ix_def, symmetric]]
      show ?thesis
      proof
        assume "parseNodes_stk d src (skip src p6 ''}}'') [''{{:else}}'', ''{{/each}}''] = Inl RangeError"
        then show ?thesis by (simp add: s st_def)
      next
        assume sb: "parseNodes_stk d src (skip src p6 ''}}'') [''{{:else}}'', ''{{/each}}'']
           = Inr (parseNodes src (skip src p6 ''}}'') [''{{:else}}'', ''{{/each}}''])"
        from 7(3) [OF se e [symmetric] k [symmetric] p3_def nn it [symmetric] p5_def
                    x [unfolded ix_def, symmetric] sb b [unfolded st_def, symmetric]]
        show ?thesis
          by (auto simp add: s st_def sb b [unfolded st_def] l i)
      qed
    qed
  qed
next
  case (8 d src pos stops)
  note ps = parseElse_stk.psimps [OF 8(1)]
  show ?case
  proof (cases "at_pos src pos ''{{:else}}''")
    case True
    from 8(2) [OF True] show ?thesis
      using True by (subst parseElse.simps) (auto simp add: ps split: prod.splits)
  next
    case False
    then show ?thesis by (subst parseElse.simps) (simp add: ps)
  qed
qed

lemma parse_nodes_stk_total:
  "All parseNodes_stk_nodes_loop_stk_parseTag_stk_parseIf_stk_parseElifs_stk_parseEach_stk_parseElse_stk_dom"
proof (relation "measure (\<lambda>x. case x of
      Inl (Inl (n, src, pos, stops)) \<Rightarrow> 3 * (length src - pos) + 1
    | Inl (Inr (Inl (d, src, pos, stops))) \<Rightarrow> 3 * (length src - pos)
    | Inl (Inr (Inr (d, src, pos))) \<Rightarrow> 3 * (length src - pos)
    | Inr (Inl (Inl (d, src, pos))) \<Rightarrow> 3 * (length src - pos) + 2
    | Inr (Inl (Inr (d, src, pos))) \<Rightarrow> 3 * (length src - pos)
    | Inr (Inr (Inl (d, src, pos))) \<Rightarrow> 3 * (length src - pos) + 2
    | Inr (Inr (Inr (d, src, pos, stops))) \<Rightarrow> 3 * (length src - pos))", goal_cases)
  case 1
  show ?case by simp
next
  case (2 d src pos stops)
  show ?case by simp
next
  case (3 d src pos stops)
  then show ?case by simp
next
  case (4 d src pos stops)
  then show ?case using skipWs_ge [of "pos + 2" src] by simp
next
  case prems: (5 d src pos stops b n p)
  have "b = parseTag src (skipWs src (pos + 2))"
    using parse_nodes_stk_refines_dom(3) [OF prems(7)] prems(5) by simp
  then have "skipWs src (pos + 2) \<le> p"
    using parseTag_ge [of "skipWs src (pos + 2)" src] prems(6) by (metis snd_conv)
  then show ?case using skipWs_ge [of "pos + 2" src] prems(1) by simp
next
  case prems: (6 d src pos stops tx p)
  have "pos < p"
    using text_loop_gt [OF prems(1,2,3,4), of "[]"] prems(5) by (metis snd_conv)
  then show ?case using prems(1) by simp
next
  case prems: (7 d src pos kw p1 p2)
  have "pos < length src" using prems(2) by (rule chr_SomeD)
  moreover have "Suc pos \<le> p2"
    using ident_ge [of "Suc pos" src] prems(3,4) skipWs_ge [of p1 src]
    by (metis snd_conv order_trans)
  ultimately show ?case by simp
next
  case prems: (8 d src pos kw p1 p2)
  have "pos < length src" using prems(2) by (rule chr_SomeD)
  moreover have "Suc pos \<le> p2"
    using ident_ge [of "Suc pos" src] prems(3,4) skipWs_ge [of p1 src]
    by (metis snd_conv order_trans)
  ultimately show ?case by simp
next
  case prems: (9 d src pos b cond p1)
  have e: "(cond, p1) = parseExpr src pos"
    using parseExpr_stk_InrD [OF prems(1)] prems(2) by simp
  show ?case using tag_open_ge [OF e] by simp
next
  case prems: (10 d src pos b cond p1 ba body p2)
  have e: "(cond, p1) = parseExpr src pos"
    using parseExpr_stk_InrD [OF prems(1)] prems(2) by simp
  have "ba = parseNodes src (skip src (skipWs src p1) ''}}'') ifStops"
    using parse_nodes_stk_refines_dom(1) [OF prems(5)] prems(3) by simp
  then have "skip src (skipWs src p1) ''}}'' \<le> p2"
    using parseNodes_ge [of "skip src (skipWs src p1) ''}}''" src ifStops] prems(4)
    by (metis snd_conv)
  then show ?case using tag_open_ge [OF e] by simp
next
  case prems: (11 d src pos b cond p1 ba body p2 bb elifs p3)
  have e: "(cond, p1) = parseExpr src pos"
    using parseExpr_stk_InrD [OF prems(1)] prems(2) by simp
  have "ba = parseNodes src (skip src (skipWs src p1) ''}}'') ifStops"
    using parse_nodes_stk_refines_dom(1) [OF prems(8)] prems(3) by simp
  then have a: "skip src (skipWs src p1) ''}}'' \<le> p2"
    using parseNodes_ge [of "skip src (skipWs src p1) ''}}''" src ifStops] prems(4)
    by (metis snd_conv)
  have "bb = parseElifs src p2"
    using parse_nodes_stk_refines_dom(5) [OF prems(7)] prems(5) by simp
  then have b: "p2 \<le> p3"
    using parseElifs_ge [of p2 src] prems(6) by (metis snd_conv)
  show ?case using a b tag_open_ge [OF e] by simp
next
  case prems: (12 d src pos p0 b cond2 p1)
  have e: "(cond2, p1) = parseExpr src (skipWs src p0)"
    using parseExpr_stk_InrD [OF prems(3)] prems(4) by simp
  have "pos < length src" using prems(1) by (auto dest: at_pos_lt)
  moreover have "pos < p0" using prems(2) by simp
  moreover have "p0 \<le> skip src (skipWs src p1) ''}}''"
    using tag_open_ge [OF e] skipWs_ge [of p0 src] by simp
  ultimately show ?case by simp
next
  case prems: (13 d src pos p0 b cond2 p1 ba body p2)
  have e: "(cond2, p1) = parseExpr src (skipWs src p0)"
    using parseExpr_stk_InrD [OF prems(3)] prems(4) by simp
  have a: "pos < length src" using prems(1) by (auto dest: at_pos_lt)
  have b: "pos < p0" using prems(2) by simp
  have c: "p0 \<le> skip src (skipWs src p1) ''}}''"
    using tag_open_ge [OF e] skipWs_ge [of p0 src] by simp
  have "ba = parseNodes src (skip src (skipWs src p1) ''}}'') ifStops"
    using parse_nodes_stk_refines_dom(1) [OF prems(7)] prems(5) by simp
  then have "skip src (skipWs src p1) ''}}'' \<le> p2"
    using parseNodes_ge [of "skip src (skipWs src p1) ''}}''" src ifStops] prems(6)
    by (metis snd_conv)
  then show ?case using a b c by simp
next
  case prems: (14 d src pos b arrExpr p1 asKw p2 p3 itemName p4 p5 idxName p6)
  have e: "(arrExpr, p1) = parseExpr src pos"
    using parseExpr_stk_InrD [OF prems(1)] prems(2) by simp
  show ?case
    using each_header_ge [OF e prems(3,4,6,7,8)] by simp
next
  case prems: (15 d src pos b arrExpr p1 asKw p2 p3 itemName p4 p5 idxName p6 ba body p7)
  have e: "(arrExpr, p1) = parseExpr src pos"
    using parseExpr_stk_InrD [OF prems(1)] prems(2) by simp
  have "ba = parseNodes src (skip src p6 ''}}'') [''{{:else}}'', ''{{/each}}'']"
    using parse_nodes_stk_refines_dom(1) [OF prems(11)] prems(9) by simp
  then have "skip src p6 ''}}'' \<le> p7"
    using parseNodes_ge [of "skip src p6 ''}}''" src "[''{{:else}}'', ''{{/each}}'']"] prems(10)
    by (metis snd_conv)
  then show ?case
    using each_header_ge [OF e prems(3,4,6,7,8)] by simp
next
  case prems: (16 d src pos stops)
  have "pos < length src" using prems(1) by (auto dest: at_pos_lt)
  then show ?case by simp
qed

termination parseNodes_stk
  by (rule parse_nodes_stk_total)

declare parseNodes_stk.simps [simp del] nodes_loop_stk.simps [simp del]
  parseTag_stk.simps [simp del] parseIf_stk.simps [simp del] parseElifs_stk.simps [simp del]
  parseEach_stk.simps [simp del] parseElse_stk.simps [simp del]

lemma parseNodes_stk_refines:
  "parseNodes_stk n src pos stops = Inl RangeError
   \<or> parseNodes_stk n src pos stops = Inr (parseNodes src pos stops)"
  using parse_nodes_stk_refines_dom(1) [of n src pos stops] parse_nodes_stk_total by auto

text \<open>
  A nested activation starts behind the character that opens it, so a stack that admits
  more activations than the input has characters left is never exhausted.
\<close>

lemma parse_expr_stk_enough:
  "length src - pos0 < n \<Longrightarrow> parseExpr_stk n src pos0 = Inr (parseExpr src pos0)"
  "length src - pos \<le> d \<Longrightarrow> parseBase_stk d src pos = Inr (parseBase src pos)"
  "length src - pos < d \<Longrightarrow> parseArgs_stk d src pos args = Inr (parseArgs src pos args)"
  "length src - pos \<le> d \<Longrightarrow> parsePipes_stk d src pos expr = Inr (parsePipes src pos expr)"
proof (induct n src pos0 and d src pos and d src pos args and d src pos expr
       rule: parseExpr_stk_parseBase_stk_parseArgs_stk_parsePipes_stk.induct)
  case (1 src pos0)
  then show ?case by simp
next
  case (2 d src pos0)
  define start where "start = skipWs src pos0"
  obtain expr pos1 where b: "parseBase src start = (expr, pos1)" by (cases "parseBase src start")
  obtain expr' pos2 where p: "parsePipes src (skipWs src pos1) expr = (expr', pos2)"
    by (cases "parsePipes src (skipWs src pos1) expr")
  have e: "parseExpr src pos0 = (expr', if pos2 = start \<and> pos2 < length src then Suc pos2 else pos2)"
    by (subst parseExpr.simps) (simp add: start_def [symmetric] b p)
  have g1: "pos0 \<le> start" by (simp add: start_def skipWs_ge)
  have g2: "start \<le> skipWs src pos1"
    using parseBase_ge [of start src] b skipWs_ge [of pos1 src] by simp
  have sb: "parseBase_stk d src start = Inr (parseBase src start)"
    using 2(1) [OF start_def] 2(3) g1 by simp
  have sp: "parsePipes_stk d src (skipWs src pos1) expr = Inr (parsePipes src (skipWs src pos1) expr)"
    using 2(2) [OF start_def sb b [symmetric]] 2(3) g1 g2 by simp
  show ?case
    by (simp add: parseExpr_stk.simps start_def [symmetric] sb b sp p e)
next
  case (3 d src pos)
  show ?case
  proof (cases "chr src pos = Some (CHR 0x22) \<or> chr src pos = Some (CHR 0x27)")
    case True
    then show ?thesis
      by (subst parseBase.simps) (simp add: parseBase_stk.simps)
  next
    case nq: False
    show ?thesis
    proof (cases "case chr src pos of Some c \<Rightarrow> c = CHR ''-'' \<or> isDigit c \<or> c = CHR ''.''
                  | None \<Rightarrow> False")
      case True
      then show ?thesis
        using nq by (subst parseBase.simps) (simp add: parseBase_stk.simps)
    next
      case nn: False
      obtain name p where ip: "ident src pos = (name, p)" by (cases "ident src pos")
      have pp: "pos \<le> p" using ident_ge [of pos src] ip by simp
      show ?thesis
      proof (cases "name = ''true'' \<or> name = ''false'' \<or> name = ''null''")
        case True
        then show ?thesis
          using nq nn ip by (subst parseBase.simps) (auto simp add: parseBase_stk.simps)
      next
        case kw: False
        define p1 where "p1 = skipWs src p"
        have p1: "p \<le> p1" by (simp add: p1_def skipWs_ge)
        show ?thesis
        proof (cases "chr src p1 = Some CHR ''(''")
          case True
          have "p1 < length src" using True by (rule chr_SomeD)
          then have "length src - skipWs src (Suc p1) < d"
            using 3(2) pp p1 skipWs_ge [of "Suc p1" src] by simp
          then have "parseArgs_stk d src (skipWs src (Suc p1)) []
              = Inr (parseArgs src (skipWs src (Suc p1)) [])"
            using 3(1) [OF refl nq nn ip [symmetric] _ _ _ p1_def True] kw by simp
          then show ?thesis
            using nq nn ip kw True
            by (subst parseBase.simps)
               (auto simp add: parseBase_stk.simps p1_def [symmetric] split: prod.splits)
        next
          case False
          then show ?thesis
            using nq nn ip kw
            by (subst parseBase.simps)
               (auto simp add: parseBase_stk.simps p1_def [symmetric] split: prod.splits)
        qed
      qed
    qed
  qed
next
  case (4 d src pos args)
  show ?case
  proof (cases "pos < length src \<and> src ! pos \<noteq> CHR '')'' \<and> src ! pos \<noteq> CHR ''}''")
    case True
    obtain e p1 where ep: "parseExpr src pos = (e, p1)" by (cases "parseExpr src pos")
    define p2 where "p2 = skipWs src p1"
    define p3 where "p3 = (if chr src p2 = Some CHR '','' then skipWs src (Suc p2) else p2)"
    have "pos \<le> p1" using parseExpr_ge [of pos src] ep by simp
    moreover have "p1 \<le> p3"
      using skipWs_ge [of p1 src] skipWs_ge [of "Suc p2" src] by (auto simp: p2_def p3_def)
    ultimately have g: "length src - p3 < d" using 4(3) by simp
    have i: "parseArgs src pos args = parseArgs src p3 (args @ [e])"
      using True unfolding p3_def p2_def
      by (subst parseArgs.simps) (simp add: ep Let_def)
    have se: "parseExpr_stk d src pos = Inr (parseExpr src pos)"
      using 4(1) [OF True] 4(3) by simp
    have "parseArgs_stk d src pos args = parseArgs_stk d src p3 (args @ [e])"
      using True unfolding p3_def p2_def
      by (simp add: parseArgs_stk.simps [of d src pos] se ep Let_def)
    then show ?thesis
      using 4(2) [OF True se ep [symmetric] p2_def p3_def] i g by simp
  next
    case False
    then show ?thesis
      by (subst parseArgs.simps) (auto simp add: parseArgs_stk.simps)
  qed
next
  case (5 d src pos expr)
  show ?case
  proof (cases "chr src pos = Some CHR ''|''")
    case True
    define p1 where "p1 = skipWs src (Suc pos)"
    obtain fn p2 where ip: "ident src p1 = (fn, p2)" by (cases "ident src p1")
    define p3 where "p3 = skipWs src p2"
    define r where "r = (if chr src p3 = Some CHR ''(''
                       then (case parseArgs src (skipWs src (Suc p3)) [] of
                               (args, p4) \<Rightarrow>
                                 (args, if chr src p4 = Some CHR '')'' then Suc p4 else p4))
                       else ([], p3))"
    define rs where "rs = (if chr src p3 = Some CHR ''(''
                       then (case parseArgs_stk d src (skipWs src (Suc p3)) [] of
                               Inl err \<Rightarrow> Inl err
                             | Inr (args, p4) \<Rightarrow>
                                 Inr (args, if chr src p4 = Some CHR '')'' then Suc p4 else p4))
                       else Inr ([], p3))"
    obtain args p5 where r: "r = (args, p5)" by (cases r)
    have le: "Suc pos \<le> p1" "p1 \<le> p2" "p2 \<le> p3"
      using skipWs_ge [of "Suc pos" src] ident_ge [of p1 src] ip skipWs_ge [of p2 src]
      by (simp_all add: p1_def p3_def)
    have i: "parsePipes src pos expr = parsePipes src (skipWs src p5) (P expr fn args)"
      using True r unfolding r_def p3_def p1_def
      by (subst parsePipes.simps) (simp add: ip [unfolded p1_def] Let_def)
    have s: "parsePipes_stk d src pos expr =
        (case rs of Inl err \<Rightarrow> Inl err
         | Inr (args, p5) \<Rightarrow> parsePipes_stk d src (skipWs src p5) (P expr fn args))"
      using True unfolding rs_def p3_def p1_def
      by (simp add: parsePipes_stk.simps [of d src pos] ip [unfolded p1_def] Let_def)
    have rr: "rs = Inr r" and p35: "p3 \<le> p5"
    proof -
      show "rs = Inr r"
      proof (cases "chr src p3 = Some CHR ''(''")
        case lp: True
        have "p3 < length src" using lp by (rule chr_SomeD)
        then have "length src - skipWs src (Suc p3) < d"
          using 5(3) le skipWs_ge [of "Suc p3" src] by simp
        then show ?thesis
          using 5(1) [OF True p1_def ip [symmetric] p3_def lp] lp
          by (auto simp: rs_def r_def split: prod.splits)
      next
        case False
        then show ?thesis by (simp add: rs_def r_def)
      qed
      show "p3 \<le> p5"
      proof (cases "chr src p3 = Some CHR ''(''")
        case lp: True
        obtain as p4 where ap: "parseArgs src (skipWs src (Suc p3)) [] = (as, p4)"
          by (cases "parseArgs src (skipWs src (Suc p3)) []")
        have "skipWs src (Suc p3) \<le> p4"
          using parseArgs_ge [of "skipWs src (Suc p3)" src "[]"] ap by simp
        then show ?thesis
          using r lp ap skipWs_ge [of "Suc p3" src] by (auto simp: r_def split: if_splits)
      next
        case False
        then show ?thesis using r by (simp add: r_def)
      qed
    qed
    have "length src - skipWs src p5 \<le> d"
      using 5(3) le p35 skipWs_ge [of p5 src] by simp
    then have "parsePipes_stk d src (skipWs src p5) (P expr fn args)
            = Inr (parsePipes src (skipWs src p5) (P expr fn args))"
      using 5(2) [OF True p1_def ip [symmetric] p3_def rr [unfolded rs_def r] refl] by simp
    then show ?thesis by (simp add: s rr r i)
  next
    case False
    then show ?thesis
      by (subst parsePipes.simps) (simp add: parsePipes_stk.simps)
  qed
qed

lemma parseExpr_stk_enough:
  "length src - pos < d \<Longrightarrow> parseExpr_stk d src pos = Inr (parseExpr src pos)"
  by (rule parse_expr_stk_enough(1))

lemma parse_nodes_stk_enough:
  "length src - pos < n \<Longrightarrow> parseNodes_stk n src pos stops = Inr (parseNodes src pos stops)"
  "length src - pos \<le> d \<Longrightarrow> nodes_loop_stk d src pos stops = Inr (parseNodes src pos stops)"
  "length src - pos < d \<Longrightarrow> parseTag_stk d src pos = Inr (parseTag src pos)"
  "length src - pos < d \<Longrightarrow> parseIf_stk d src pos = Inr (parseIf src pos)"
  "length src - pos < d \<Longrightarrow> parseElifs_stk d src pos = Inr (parseElifs src pos)"
  "length src - pos < d \<Longrightarrow> parseEach_stk d src pos = Inr (parseEach src pos)"
  "length src - pos < d \<Longrightarrow> parseElse_stk d src pos stops = Inr (parseElse src pos stops)"
proof (induct n src pos stops and d src pos stops and d src pos and d src pos and d src pos
         and d src pos and d src pos stops
       rule: parseNodes_stk_nodes_loop_stk_parseTag_stk_parseIf_stk_parseElifs_stk_parseEach_stk_parseElse_stk.induct)
  case (1 src pos stops)
  then show ?case by simp
next
  case (2 d src pos stops)
  then show ?case by (simp add: parseNodes_stk.simps)
next
  case (3 d src pos stops)
  note ps = nodes_loop_stk.simps [of d src pos stops]
  show ?case
  proof (cases "pos < length src \<and> \<not> list_ex (at_pos src pos) stops")
    case False
    then show ?thesis by (subst parseNodes.simps) (auto simp add: ps)
  next
    case True
    then have lt: "pos < length src" and ns: "\<not> list_ex (at_pos src pos) stops" by simp_all
    show ?thesis
    proof (cases "src ! pos = CHR 0x5C \<and> at_pos src pos escOpen")
      case esc: True
      obtain ms p where r: "parseNodes src (pos + 3) stops = (ms, p)"
        by (cases "parseNodes src (pos + 3) stops")
      have i: "parseNodes src pos stops = (T ''{{'' # ms, p)"
        using lt ns esc r by (subst parseNodes.simps) auto
      have "nodes_loop_stk d src (pos + 3) stops = Inr (parseNodes src (pos + 3) stops)"
        using 3(1) [OF lt ns esc] 3(5) by simp
      then show ?thesis
        using lt ns esc by (auto simp add: ps i r)
    next
      case ne: False
      show ?thesis
      proof (cases "at_pos src pos ''{{''")
        case tg: True
        obtain n p where t: "parseTag src (skipWs src (pos + 2)) = (n, p)"
          by (cases "parseTag src (skipWs src (pos + 2))")
        obtain ms p' where r: "parseNodes src p stops = (ms, p')"
          by (cases "parseNodes src p stops")
        have i: "parseNodes src pos stops = (n # ms, p')"
          using lt ns ne tg t r by (subst parseNodes.simps) auto
        have g: "pos + 2 \<le> skipWs src (pos + 2)" by (rule skipWs_ge)
        have g': "skipWs src (pos + 2) \<le> p"
          using parseTag_ge [of "skipWs src (pos + 2)" src] t by simp
        have st: "parseTag_stk d src (skipWs src (pos + 2)) = Inr (parseTag src (skipWs src (pos + 2)))"
          using 3(2) [OF lt ns ne tg] 3(5) lt g by simp
        have "nodes_loop_stk d src p stops = Inr (parseNodes src p stops)"
          using 3(3) [OF lt ns ne tg st t [symmetric]] 3(5) g g' by simp
        then show ?thesis
          using lt ns ne tg st t r by (auto simp add: ps i)
      next
        case nt: False
        obtain tx p where t: "text_loop src pos stops [] = (tx, p)"
          by (cases "text_loop src pos stops []")
        obtain ms p' where r: "parseNodes src p stops = (ms, p')"
          by (cases "parseNodes src p stops")
        have i: "parseNodes src pos stops = ((if tx \<noteq> [] then [T tx] else []) @ ms, p')"
          using lt ns ne nt t r by (subst parseNodes.simps) auto
        have "pos \<le> p" using text_loop_ge [of pos src stops "[]"] t by simp
        then have "nodes_loop_stk d src p stops = Inr (parseNodes src p stops)"
          using 3(4) [OF lt ns ne nt t [symmetric]] 3(5) by simp
        then show ?thesis
          using lt ns ne nt by (auto simp add: ps t r i)
      qed
    qed
  qed
next
  case (4 d src pos)
  note ps = parseTag_stk.simps [of d src pos]
  show ?case
  proof (cases "chr src pos = Some CHR ''+''")
    case True
    have "length src - skipWs src (Suc pos) < d"
      using 4(3) skipWs_ge [of "Suc pos" src] by simp
    then show ?thesis
      using True parseExpr_stk_enough [of src "skipWs src (Suc pos)" d]
      by (subst parseTag.simps) (auto simp add: ps split: prod.splits)
  next
    case np: False
    show ?thesis
    proof (cases "chr src pos = Some CHR ''#''")
      case True
      obtain kw p1 where k: "ident src (Suc pos) = (kw, p1)" by (cases "ident src (Suc pos)")
      define p2 where "p2 = skipWs src p1"
      have le: "Suc pos \<le> p1" "p1 \<le> p2"
        using ident_ge [of "Suc pos" src] k skipWs_ge [of p1 src] by (simp_all add: p2_def)
      then have g: "length src - p2 < d" using 4(3) by simp
      show ?thesis
      proof (cases "kw = ''if''")
        case kif: True
        from 4(1) [OF np True k [symmetric] p2_def kif g] show ?thesis
          using np True k kif
          by (subst parseTag.simps) (auto simp add: ps p2_def [symmetric])
      next
        case nif: False
        show ?thesis
        proof (cases "kw = ''each''")
          case keach: True
          from 4(2) [OF np True k [symmetric] p2_def nif keach g] show ?thesis
            using np True k nif keach
            by (subst parseTag.simps) (auto simp add: ps p2_def [symmetric])
        next
          case False
          then show ?thesis
            using np True k nif
            by (subst parseTag.simps) (auto simp add: ps p2_def [symmetric])
        qed
      qed
    next
      case False
      then show ?thesis
        using np parseExpr_stk_enough [OF 4(3)]
        by (subst parseTag.simps) (auto simp add: ps split: prod.splits)
    qed
  qed
next
  case (5 d src pos)
  note ps = parseIf_stk.simps [of d src pos]
  obtain cond p1 where e: "parseExpr src pos = (cond, p1)" by (cases "parseExpr src pos")
  define q where "q = skip src (skipWs src p1) ''}}''"
  obtain body p2 where b: "parseNodes src q ifStops = (body, p2)"
    by (cases "parseNodes src q ifStops")
  obtain elifs p3 where m: "parseElifs src p2 = (elifs, p3)" by (cases "parseElifs src p2")
  obtain elseBody p4 where l: "parseElse src p3 [''{{/if}}''] = (elseBody, p4)"
    by (cases "parseElse src p3 [''{{/if}}'']")
  have i: "parseIf src pos = (F ((cond, body) # elifs) elseBody, skip src p4 ''{{/if}}'')"
    by (subst parseIf.simps) (simp add: e b [unfolded q_def] m l)
  have g1: "pos \<le> q" unfolding q_def using tag_open_ge [OF e [symmetric]] .
  have g2: "q \<le> p2" using parseNodes_ge [of q src ifStops] b by simp
  have g3: "p2 \<le> p3" using parseElifs_ge [of p2 src] m by simp
  have se: "parseExpr_stk d src pos = Inr (parseExpr src pos)"
    using parseExpr_stk_enough [OF 5(4)] .
  have sb: "parseNodes_stk d src (skip src (skipWs src p1) ''}}'') ifStops
                  = Inr (parseNodes src (skip src (skipWs src p1) ''}}'') ifStops)"
    using 5(1) [OF se e [symmetric]] 5(4) g1 [unfolded q_def] by simp
  have sm: "parseElifs_stk d src p2 = Inr (parseElifs src p2)"
    using 5(2) [OF se e [symmetric] sb b [unfolded q_def, symmetric]] 5(4) g1 g2 by simp
  have "parseElse_stk d src p3 [''{{/if}}''] = Inr (parseElse src p3 [''{{/if}}''])"
    using 5(3) [OF se e [symmetric] sb b [unfolded q_def, symmetric] sm m [symmetric]]
      5(4) g1 g2 g3 by simp
  then show ?case
    by (simp add: ps se e sb b [unfolded q_def] sm m l i)
next
  case (6 d src pos)
  note ps = parseElifs_stk.simps [of d src pos]
  show ?case
  proof (cases "at_pos src pos ''{{:else if'' \<or> at_pos src pos ''{{:elseif''")
    case True
    define p0 where "p0 = pos + (if at_pos src pos ''{{:elseif'' then 9 else 10)"
    obtain cond2 p1 where e: "parseExpr src (skipWs src p0) = (cond2, p1)"
      by (cases "parseExpr src (skipWs src p0)")
    define q where "q = skip src (skipWs src p1) ''}}''"
    obtain body p2 where b: "parseNodes src q ifStops = (body, p2)"
      by (cases "parseNodes src q ifStops")
    obtain elifs p3 where m: "parseElifs src p2 = (elifs, p3)" by (cases "parseElifs src p2")
    have i: "parseElifs src pos = ((cond2, body) # elifs, p3)"
      using True
      by (subst parseElifs.simps) (simp add: Let_def e [unfolded p0_def] b [unfolded q_def] m)
    have g0: "pos \<le> skipWs src p0" using skipWs_ge [of p0 src] by (simp add: p0_def)
    have g1: "skipWs src p0 \<le> q" unfolding q_def using tag_open_ge [OF e [symmetric]] .
    have g2: "q \<le> p2" using parseNodes_ge [of q src ifStops] b by simp
    have se: "parseExpr_stk d src (skipWs src p0) = Inr (parseExpr src (skipWs src p0))"
      using parseExpr_stk_enough [of src "skipWs src p0" d] 6(3) g0 by simp
    have sb: "parseNodes_stk d src (skip src (skipWs src p1) ''}}'') ifStops
                    = Inr (parseNodes src (skip src (skipWs src p1) ''}}'') ifStops)"
      using 6(1) [OF True p0_def se e [symmetric]] 6(3) g0 g1 [unfolded q_def] by simp
    have "parseElifs_stk d src p2 = Inr (parseElifs src p2)"
      using 6(2) [OF True p0_def se e [symmetric] sb b [unfolded q_def, symmetric]]
        6(3) g0 g1 g2 by simp
    then show ?thesis
      using True se [unfolded p0_def] e [unfolded p0_def]
      by (auto simp add: ps Let_def sb b [unfolded q_def] m i)
  next
    case False
    then show ?thesis by (subst parseElifs.simps) (auto simp add: ps)
  qed
next
  case (7 d src pos)
  note ps = parseEach_stk.simps [of d src pos]
  obtain arrExpr p1 where e: "parseExpr src pos = (arrExpr, p1)" by (cases "parseExpr src pos")
  obtain asKw p2 where k: "ident src (skipWs src p1) = (asKw, p2)"
    by (cases "ident src (skipWs src p1)")
  define p3 where "p3 = skipWs src p2"
  have se: "parseExpr_stk d src pos = Inr (parseExpr src pos)"
    using parseExpr_stk_enough [OF 7(3)] .
  show ?case
  proof (cases "asKw = ''as''")
    case False
    then show ?thesis
      by (subst parseEach.simps) (simp add: ps se e k)
  next
    case True
    obtain itemName p4 where it: "ident src p3 = (itemName, p4)" by (cases "ident src p3")
    define p5 where "p5 = skipWs src p4"
    define ix where "ix = (if chr src p5 = Some CHR '',''
                            then (case ident src (skipWs src (Suc p5)) of
                                    (nm, q) \<Rightarrow> (Some nm, skipWs src q))
                            else (None, p5))"
    obtain idxName p6 where x: "ix = (idxName, p6)" by (cases ix)
    define st where "st = [''{{:else}}'', ''{{/each}}'']"
    obtain body p7 where b: "parseNodes src (skip src p6 ''}}'') st = (body, p7)"
      by (cases "parseNodes src (skip src p6 ''}}'') st")
    obtain elseBody p8 where l: "parseElse src p7 [''{{/each}}''] = (elseBody, p8)"
      by (cases "parseElse src p7 [''{{/each}}'']")
    have nn: "\<not> asKw \<noteq> ''as''" using True by simp
    have i: "parseEach src pos =
        (E arrExpr itemName idxName body elseBody, skip src p8 ''{{/each}}'')"
      using True x [unfolded ix_def p5_def] it [unfolded p3_def] b [unfolded st_def]
      by (subst parseEach.simps) (simp add: e k Let_def l)
    have s: "parseEach_stk d src pos =
        (case parseNodes_stk d src (skip src p6 ''}}'') st of
           Inl err \<Rightarrow> Inl err
         | Inr (body, p7) \<Rightarrow>
             (case parseElse_stk d src p7 [''{{/each}}''] of
                Inl err \<Rightarrow> Inl err
              | Inr (elseBody, p8) \<Rightarrow>
                  Inr (E arrExpr itemName idxName body elseBody, skip src p8 ''{{/each}}'')))"
      using True x [unfolded ix_def p5_def] it [unfolded p3_def]
      by (simp add: ps se e k Let_def st_def)
    have g1: "pos \<le> skip src p6 ''}}''"
      using each_header_ge [OF e [symmetric] k [symmetric] p3_def it [symmetric] p5_def
                               x [unfolded ix_def, symmetric]] .
    have g2: "skip src p6 ''}}'' \<le> p7"
      using parseNodes_ge [of "skip src p6 ''}}''" src st] b by simp
    have sb: "parseNodes_stk d src (skip src p6 ''}}'') [''{{:else}}'', ''{{/each}}'']
           = Inr (parseNodes src (skip src p6 ''}}'') [''{{:else}}'', ''{{/each}}''])"
      using 7(1) [OF se e [symmetric] k [symmetric] p3_def nn it [symmetric] p5_def
                    x [unfolded ix_def, symmetric]] 7(3) g1 by simp
    have "parseElse_stk d src p7 [''{{/each}}''] = Inr (parseElse src p7 [''{{/each}}''])"
      using 7(2) [OF se e [symmetric] k [symmetric] p3_def nn it [symmetric] p5_def
                    x [unfolded ix_def, symmetric] sb b [unfolded st_def, symmetric]]
        7(3) g1 g2 by simp
    then show ?thesis
      by (simp add: s st_def sb b [unfolded st_def] l i)
  qed
next
  case (8 d src pos stops)
  note ps = parseElse_stk.simps [of d src pos stops]
  show ?case
  proof (cases "at_pos src pos ''{{:else}}''")
    case True
    have "length src - (pos + 9) < d" using 8(2) by simp
    from 8(1) [OF True this] show ?thesis
      using True by (subst parseElse.simps) (auto simp add: ps split: prod.splits)
  next
    case False
    then show ?thesis by (subst parseElse.simps) (simp add: ps)
  qed
qed

text \<open>\<^verbatim>\<open>compile\<close> on a stack that admits \<open>n\<close> activations of the parsing functions.\<close>

definition compile_stk ::
  "nat \<Rightarrow> host \<Rightarrow> registry \<Rightarrow> string \<Rightarrow> error + (TemplateData \<Rightarrow> string)" where
  "compile_stk n h reg tmpl =
     (case parseNodes_stk n tmpl 0 [] of
        Inl err \<Rightarrow> Inl err
      | Inr (ast, p) \<Rightarrow> Inr (\<lambda>data. rn h reg ast data))"

lemma compile_stk_refines:
  "compile_stk n h reg tmpl = Inl RangeError \<or> compile_stk n h reg tmpl = Inr (compile h reg tmpl)"
  using parseNodes_stk_refines [of n tmpl 0 "[]"]
  by (auto simp: compile_stk_def compile_def split: prod.splits)

lemma compile_stk_enough:
  "length tmpl < n \<Longrightarrow> compile_stk n h reg tmpl = Inr (compile h reg tmpl)"
  using parse_nodes_stk_enough(1) [of tmpl 0 n "[]"]
  by (auto simp: compile_stk_def compile_def split: prod.splits)

text \<open>
  Whatever number of activations the stack admits, a template exhausts it: the tag that
  opens that many calls, each one the first argument of the one before
  (\<^verbatim>\<open>{{f(f(f(\<close> for three).
\<close>

definition nested_calls :: "nat \<Rightarrow> string" where
  "nested_calls k = concat (replicate k ''f('')"

lemma ident_f:
  assumes "src = pre @ ''f('' @ rest" and "pos = length pre"
  shows "ident src pos = (''f'', Suc pos)"
proof -
  have a: "pos < length src" "src ! pos = CHR ''f''" "Suc pos < length src"
    "src ! Suc pos = CHR ''(''"
    using assms by (simp_all add: nth_append)
  have "ident_loop src (Suc pos) ''f'' = (''f'', Suc pos)"
    using a by (subst ident_loop.simps) (simp add: isWord_def)
  then show ?thesis
    using a unfolding ident_def by (subst ident_loop.simps) (simp add: isWord_def)
qed

lemma parseExpr_stk_nested_calls:
  "parseExpr_stk k (pre @ nested_calls (Suc k)) (length pre) = Inl RangeError"
proof (induction k arbitrary: pre)
  case 0
  show ?case by (simp add: parseExpr_stk.simps)
next
  case (Suc k)
  define rest where "rest = nested_calls (Suc k)"
  define src where "src = pre @ ''f('' @ rest"
  define pos where "pos = length pre"
  have s: "pre @ nested_calls (Suc (Suc k)) = src" by (simp add: src_def rest_def nested_calls_def)
  have r: "rest = ''f('' @ nested_calls k" by (simp add: rest_def nested_calls_def)
  have a: "pos < length src" "src ! pos = CHR ''f''" "Suc pos < length src"
    "src ! Suc pos = CHR ''(''" "Suc (Suc pos) < length src" "src ! Suc (Suc pos) = CHR ''f''"
    by (simp_all add: src_def pos_def r nth_append)
  have w0: "skipWs src pos = pos" using a by (intro skipWs_stay) (simp_all add: isWs_def)
  have w1: "skipWs src (Suc pos) = Suc pos"
    using a by (intro skipWs_stay) (simp_all add: isWs_def)
  have w2: "skipWs src (Suc (Suc pos)) = Suc (Suc pos)"
    using a by (intro skipWs_stay) (simp_all add: isWs_def)
  have i: "ident src pos = (''f'', Suc pos)"
    using src_def pos_def by (rule ident_f)
  have "parseExpr_stk k src (Suc (Suc pos)) = Inl RangeError"
    using Suc.IH [of "pre @ ''f(''"] by (simp add: src_def pos_def rest_def)
  then have "parseArgs_stk k src (Suc (Suc pos)) [] = Inl RangeError"
    using a by (subst parseArgs_stk.simps) simp
  then have "parseBase_stk k src pos = Inl RangeError"
    using a i by (subst parseBase_stk.simps) (simp add: chr_def isDigit_def w1 w2)
  then show ?case
    unfolding s pos_def [symmetric] by (subst parseExpr_stk.simps) (simp add: w0)
qed

lemma parseNodes_stk_nested_calls: "parseNodes_stk d (''{{'' @ nested_calls d) 0 [] = Inl RangeError"
proof (cases d)
  case 0
  then show ?thesis by (simp add: parseNodes_stk.simps)
next
  case (Suc k)
  define src where "src = ''{{'' @ nested_calls (Suc k)"
  have a: "0 < length src" "src ! 0 = CHR ''{''" "2 < length src" "src ! 2 = CHR ''f''"
    "at_pos src 0 ''{{''"
    by (simp_all add: src_def nested_calls_def at_pos_def)
  have w: "skipWs src 2 = 2" using a by (intro skipWs_stay) (simp_all add: isWs_def)
  have "parseExpr_stk k src 2 = Inl RangeError"
    using parseExpr_stk_nested_calls [of k "''{{''"] by (simp add: src_def numeral_2_eq_2)
  then have "parseTag_stk k src 2 = Inl RangeError"
    using a by (subst parseTag_stk.simps) (simp add: chr_def)
  then have "nodes_loop_stk k src 0 [] = Inl RangeError"
    using a w by (subst nodes_loop_stk.simps) (simp add: numeral_2_eq_2)
  then show ?thesis
    unfolding Suc src_def [symmetric] by (simp add: parseNodes_stk.simps)
qed

lemma compile_stk_nested_calls:
  "compile_stk n h reg (''{{'' @ nested_calls n) = Inl RangeError"
  unfolding compile_stk_def parseNodes_stk_nested_calls by simp

section \<open>Properties of the parser\<close>

lemma parseNodes_step:
  assumes "pos < length src" and "\<not> list_ex (at_pos src pos) stops"
  shows "\<exists>ns p. pos < p \<and>
    parseNodes src pos stops = (ns @ fst (parseNodes src p stops), snd (parseNodes src p stops))"
proof (cases "src ! pos = CHR 0x5C \<and> at_pos src pos escOpen")
  case True
  have "parseNodes src pos stops =
      ([T ''{{''] @ fst (parseNodes src (pos + 3) stops), snd (parseNodes src (pos + 3) stops))"
    using assms True by (subst parseNodes.simps) (simp split: prod.splits)
  then show ?thesis by (intro exI [of _ "[T ''{{'']"] exI [of _ "pos + 3"]) simp
next
  case ne: False
  show ?thesis
  proof (cases "at_pos src pos ''{{''")
    case True
    obtain n p where t: "parseTag src (skipWs src (pos + 2)) = (n, p)"
      by (cases "parseTag src (skipWs src (pos + 2))")
    have "pos + 2 \<le> p"
      using parseTag_ge [of "skipWs src (pos + 2)" src] t skipWs_ge [of "pos + 2" src] by simp
    moreover have "parseNodes src pos stops =
        ([n] @ fst (parseNodes src p stops), snd (parseNodes src p stops))"
      using assms ne True t by (subst parseNodes.simps) (auto split: prod.splits)
    ultimately show ?thesis by (intro exI [of _ "[n]"] exI [of _ p]) simp
  next
    case False
    obtain tx p where t: "text_loop src pos stops [] = (tx, p)"
      by (cases "text_loop src pos stops []")
    have "pos < p" using text_loop_gt [OF assms ne False, of "[]"] t by simp
    moreover have "parseNodes src pos stops =
        ((if tx \<noteq> [] then [T tx] else []) @ fst (parseNodes src p stops),
         snd (parseNodes src p stops))"
      using assms ne False t by (subst parseNodes.simps) (auto split: prod.splits)
    ultimately show ?thesis
      by (intro exI [of _ "if tx \<noteq> [] then [T tx] else []"] exI [of _ p]) simp
  qed
qed

lemma parseNodes_end:
  "length src \<le> snd (parseNodes src pos stops)
   \<or> list_ex (at_pos src (snd (parseNodes src pos stops))) stops"
proof (induct "length src - pos" arbitrary: pos rule: less_induct)
  case less
  show ?case
  proof (cases "pos < length src \<and> \<not> list_ex (at_pos src pos) stops")
    case True
    then obtain ns p where p: "pos < p"
      and eq: "parseNodes src pos stops = (ns @ fst (parseNodes src p stops), snd (parseNodes src p stops))"
      using parseNodes_step [of pos src stops] by blast
    have "length src - p < length src - pos" using True p by auto
    from less [OF this] show ?thesis by (simp add: eq)
  next
    case False
    then show ?thesis by (subst (1 2) parseNodes.simps) auto
  qed
qed

text \<open>
  Claim C7, amended. The parse terminates on every template, at every cursor, with every
  list of stop sequences and on every stack: every call of \<^verbatim>\<open>parseNodes\<close> and of
  \<^verbatim>\<open>parseExpr\<close> lies in the well-founded part of the call relation of the parser. It
  ends with the nodes (or the expression) and the cursor, or with the exception of the
  host for an exhausted call stack, and with no other failure. It ends with the nodes
  whenever the stack admits more activations than the input has characters left; and
  whatever the stack admits, the template that opens that many nested calls in a tag
  ends with the exception. The parse never loops without consuming input, for the reason
  the claim gives: \<^verbatim>\<open>parseExpr\<close> never moves the cursor back and moves it forward
  whenever input is left, by one character when its branches have read nothing behind
  the leading white space; every iteration of the node loop that does not stop moves the
  cursor forward before the loop continues; and the loop ends only at the end of the
  input or at a stop sequence, so the parse of a whole template reaches the end of the
  input.
\<close>

theorem parse_terminates:
  "parseNodes_stk_nodes_loop_stk_parseTag_stk_parseIf_stk_parseElifs_stk_parseEach_stk_parseElse_stk_dom (Inl (Inl (n, src, pos, stops)))
   \<and> parseExpr_stk_parseBase_stk_parseArgs_stk_parsePipes_stk_dom (Inl (Inl (n, src, pos)))
   \<and> (parseNodes_stk n src pos stops = Inl RangeError
        \<or> parseNodes_stk n src pos stops = Inr (parseNodes src pos stops))
   \<and> (parseExpr_stk n src pos = Inl RangeError
        \<or> parseExpr_stk n src pos = Inr (parseExpr src pos))
   \<and> (compile_stk n h reg src = Inl RangeError
        \<or> compile_stk n h reg src = Inr (compile h reg src))
   \<and> (length src - pos < n \<longrightarrow>
        parseNodes_stk n src pos stops = Inr (parseNodes src pos stops)
        \<and> parseExpr_stk n src pos = Inr (parseExpr src pos))
   \<and> (length src < n \<longrightarrow> compile_stk n h reg src = Inr (compile h reg src))
   \<and> compile_stk n h reg (''{{'' @ nested_calls n) = Inl RangeError
   \<and> parseNodes_parseTag_parseIf_parseElifs_parseEach_parseElse_dom (Inl (Inl (src, pos, stops)))
   \<and> parseExpr_parseBase_parseArgs_parsePipes_dom (Inl (Inl (src, pos)))
   \<and> pos \<le> snd (parseExpr src pos)
   \<and> (pos < length src \<longrightarrow> pos < snd (parseExpr src pos))
   \<and> (skipWs src pos < length src \<longrightarrow> skipWs src pos < snd (parseExpr src pos))
   \<and> (snd (parsePipes src (skipWs src (snd (parseBase src (skipWs src pos))))
              (fst (parseBase src (skipWs src pos)))) = skipWs src pos
        \<and> skipWs src pos < length src \<longrightarrow>
        snd (parseExpr src pos) = Suc (skipWs src pos))
   \<and> (pos < length src \<and> \<not> list_ex (at_pos src pos) stops \<longrightarrow>
        (\<exists>ns p. pos < p \<and>
           parseNodes src pos stops =
             (ns @ fst (parseNodes src p stops), snd (parseNodes src p stops))))
   \<and> (length src \<le> snd (parseNodes src pos stops)
        \<or> list_ex (at_pos src (snd (parseNodes src pos stops))) stops)
   \<and> length src \<le> snd (parseNodes src 0 [])"
proof -
  have "skipWs src pos < length src \<longrightarrow> skipWs src pos < snd (parseExpr src pos)"
    using parseExpr_start(2) [of src pos] by simp
  moreover have "snd (parsePipes src (skipWs src (snd (parseBase src (skipWs src pos))))
              (fst (parseBase src (skipWs src pos)))) = skipWs src pos
        \<and> skipWs src pos < length src \<longrightarrow>
        snd (parseExpr src pos) = Suc (skipWs src pos)"
    using parseExpr_start(3) [of src pos] by simp
  moreover
  have "length src - pos < n \<longrightarrow>
        parseNodes_stk n src pos stops = Inr (parseNodes src pos stops)
        \<and> parseExpr_stk n src pos = Inr (parseExpr src pos)"
    by (simp add: parse_nodes_stk_enough(1) parseExpr_stk_enough)
  moreover have "length src < n \<longrightarrow> compile_stk n h reg src = Inr (compile h reg src)"
    by (simp add: compile_stk_enough)
  moreover have "pos < length src \<and> \<not> list_ex (at_pos src pos) stops \<longrightarrow>
        (\<exists>ns p. pos < p \<and>
           parseNodes src pos stops =
             (ns @ fst (parseNodes src p stops), snd (parseNodes src p stops)))"
    using parseNodes_step [of pos src stops] by simp
  moreover have "length src \<le> snd (parseNodes src 0 [])"
    using parseNodes_end [of src 0 "[]"] by simp
  moreover have "pos < length src \<longrightarrow> pos < snd (parseExpr src pos)"
    using parseExpr_gt [of pos src] by simp
  moreover have "parseNodes_stk_nodes_loop_stk_parseTag_stk_parseIf_stk_parseElifs_stk_parseEach_stk_parseElse_stk_dom (Inl (Inl (n, src, pos, stops)))"
    and "parseExpr_stk_parseBase_stk_parseArgs_stk_parsePipes_stk_dom (Inl (Inl (n, src, pos)))"
    and "parseNodes_parseTag_parseIf_parseElifs_parseEach_parseElse_dom (Inl (Inl (src, pos, stops)))"
    and "parseExpr_parseBase_parseArgs_parsePipes_dom (Inl (Inl (src, pos)))"
    using parse_nodes_stk_total parse_expr_stk_total parse_nodes_total parse_expr_total
    by simp_all
  ultimately show ?thesis
    using parseNodes_stk_refines [of n src pos stops] parseExpr_stk_refines [of n src pos]
      compile_stk_refines [of n h reg src] compile_stk_nested_calls [of n h reg]
      parseExpr_ge [of pos src] parseNodes_end [of src pos stops]
    by blast
qed

text \<open>
  On \<^verbatim>\<open>{{ $ }}\<close> the expression parser reads nothing at the dollar sign and still
  moves on; a stack of eight activations is more than the template has characters.
\<close>

theorem parse_terminates_witness:
  "parseNodes_stk 8 ''{{ $ }}'' 0 [] = Inr (parseNodes ''{{ $ }}'' 0 [])
   \<and> parseExpr_stk 8 ''{{ $ }}'' 3 = Inr (parseExpr ''{{ $ }}'' 3)
   \<and> compile_stk 8 sampleHost Map.empty ''{{ $ }}'' = Inr (compile sampleHost Map.empty ''{{ $ }}'')
   \<and> snd (parseExpr ''{{ $ }}'' 3) = 4
   \<and> (\<exists>ns p. 0 < p \<and> parseNodes ''{{ $ }}'' 0 [] =
          (ns @ fst (parseNodes ''{{ $ }}'' p []), snd (parseNodes ''{{ $ }}'' p [])))
   \<and> length ''{{ $ }}'' \<le> snd (parseNodes ''{{ $ }}'' 0 [])"
proof -
  let ?t = "''{{ $ }}''"
  have a: "skipWs ?t 3 = 3" and b: "parseBase ?t 3 = (V [[]], 3)"
    and c: "parsePipes ?t 3 (V [[]]) = (V [[]], 3)"
    by code_simp+
  show ?thesis
    using parse_terminates [of 8 ?t 3 "[]" sampleHost Map.empty]
      parse_terminates [of 8 ?t 0 "[]" sampleHost Map.empty]
    by (simp add: a b c)
qed

text \<open>
  The claim as stated fails on two nested blocks when the stack admits two activations:
  the condition of the inner block is read by a third, and the parse ends with the
  exception. (With three it ends with the tree.)
\<close>

theorem parse_stack_overflow_counterexample:
  "parseNodes_stk 2 ''{{#if a}}{{#if b}}x{{/if}}{{/if}}'' 0 [] = Inl RangeError
   \<and> compile_stk 2 sampleHost Map.empty ''{{#if a}}{{#if b}}x{{/if}}{{/if}}'' = Inl RangeError
   \<and> parseNodes_stk 3 ''{{#if a}}{{#if b}}x{{/if}}{{/if}}'' 0 []
       = Inr ([F [(V [''a''], [F [(V [''b''], [T ''x''])] None])] None], 33)"
proof -
  have "parseNodes_stk 2 ''{{#if a}}{{#if b}}x{{/if}}{{/if}}'' 0 [] = Inl RangeError"
    by code_simp
  moreover have "parseNodes_stk 3 ''{{#if a}}{{#if b}}x{{/if}}{{/if}}'' 0 []
       = Inr ([F [(V [''a''], [F [(V [''b''], [T ''x''])] None])] None], 33)"
    by code_simp
  ultimately show ?thesis by (simp add: compile_stk_def)
qed

text \<open>At and after the end of the input nothing moves the cursor.\<close>

lemma skipWs_end: "length src \<le> pos \<Longrightarrow> skipWs src pos = pos"
  by (subst skipWs.simps) simp

lemma scan_close_end: "length src \<le> pos \<Longrightarrow> scan_close src pos = pos"
  by (subst scan_close.simps) simp

lemma skip_end: "length src \<le> pos \<Longrightarrow> s \<noteq> [] \<Longrightarrow> skip src pos s = pos"
  by (auto simp: skip_def at_pos_def)

lemma parsePipes_end: "length src \<le> pos \<Longrightarrow> parsePipes src pos e = (e, pos)"
  by (subst parsePipes.simps) (simp add: chr_def)

lemma parseNodes_at_end: "length src \<le> pos \<Longrightarrow> parseNodes src pos stops = ([], pos)"
  by (subst parseNodes.simps) simp

text \<open>
  A string literal is unterminated when no quote closes it before the end of the input.
  The predicate reads the characters after the opening quote: the quote character closes
  the literal wherever it stands, except right after a backslash that escapes it (a
  backslash that is not the last character escapes the character after it).
\<close>

fun unterminated :: "char \<Rightarrow> string \<Rightarrow> bool" where
  "unterminated q [] = True"
| "unterminated q [c] = (c \<noteq> q)"
| "unterminated q (c # c' # cs) =
     (c \<noteq> q \<and> (if c = CHR 0x5C then unterminated q cs else unterminated q (c' # cs)))"

lemma unterminated_absent: "q \<notin> set s \<Longrightarrow> unterminated q s"
  by (induction q s rule: unterminated.induct) auto

text \<open>It holds exactly when the scanning loop of the literal runs to the end of the input.\<close>

lemma str_loop_end_iff:
  "pos \<le> length src \<Longrightarrow>
     (snd (str_loop src q pos s) = length src) = unterminated q (drop pos src)"
proof (induction src q pos s rule: str_loop.induct)
  case (1 src q pos s)
  show ?case
  proof (cases "pos < length src")
    case False
    then show ?thesis using 1(3) by (subst str_loop.simps) simp
  next
    case True
    then have d1: "drop pos src = src ! pos # drop (Suc pos) src"
      by (simp add: Cons_nth_drop_Suc)
    show ?thesis
    proof (cases "src ! pos = q")
      case True
      then show ?thesis using \<open>pos < length src\<close> d1
        by (subst str_loop.simps) (cases "drop (Suc pos) src", auto)
    next
      case nq: False
      show ?thesis
      proof (cases "pos + 1 < length src")
        case False
        then have e: "drop (Suc pos) src = []" by simp
        have "str_loop src q (Suc pos) (s @ [src ! pos]) = (s @ [src ! pos], Suc pos)"
          using False by (subst str_loop.simps) simp
        then show ?thesis using True nq False d1 e
          by (subst str_loop.simps) auto
      next
        case two: True
        then have d2: "drop (Suc pos) src = src ! (pos + 1) # drop (pos + 2) src"
          by (simp add: Cons_nth_drop_Suc)
        show ?thesis
        proof (cases "src ! pos = CHR 0x5C")
          case esc: True
          have "(snd (str_loop src q (pos + 2) (s @ [unescape (src ! (pos + 1))])) = length src)
                = unterminated q (drop (pos + 2) src)"
            using 1(1) True nq esc two by simp
          then show ?thesis using True nq esc two d1 d2
            by (subst str_loop.simps) simp
        next
          case False
          have "(snd (str_loop src q (Suc pos) (s @ [src ! pos])) = length src)
                = unterminated q (drop (Suc pos) src)"
            using 1(2) True nq False by simp
          then show ?thesis using True nq False two d1 d2
            by (subst str_loop.simps) simp
        qed
      qed
    qed
  qed
qed

lemma string_literal_unterminated:
  assumes "pos < length src" and "unterminated (src ! pos) (drop (Suc pos) src)"
  shows "string_literal src pos = (L (VStr []), length src)"
proof -
  have "snd (str_loop src (src ! pos) (Suc pos) []) = length src"
    using assms by (simp add: str_loop_end_iff)
  then show ?thesis
    by (cases "str_loop src (src ! pos) (Suc pos) []") (simp add: string_literal_def)
qed

lemma parseExpr_unterminated:
  assumes "pos < length src" and "src ! pos = q" and "q = CHR 0x22 \<or> q = CHR 0x27"
    and "unterminated q (drop (Suc pos) src)"
  shows "parseExpr src pos = (L (VStr []), length src)"
proof -
  have nws: "\<not> isWs (src ! pos)" using assms(2,3) by (auto simp: isWs_def)
  have st: "skipWs src pos = pos" using assms(1) nws by (rule skipWs_stay)
  have base: "parseBase src pos = (L (VStr []), length src)"
    using assms string_literal_unterminated [of pos src]
    by (subst parseBase.simps) (auto simp: chr_def Let_def)
  show ?thesis
    using assms(1)
    by (subst parseExpr.simps) (simp add: st base skipWs_end parsePipes_end Let_def)
qed

text \<open>
  Claim C8, amended. When a string literal is not terminated (no quote closes it before
  the end of the input, a quote that a backslash escapes not being one that closes), the
  parsed expression is the literal of the empty string and the cursor is at the end of
  the input: the literal has consumed everything that follows its opening quote. The tag
  that holds it is therefore the last node of the parse, whatever follows it in the
  template, and a template that begins with such a tag renders to the empty string.
\<close>

theorem unterminated_string_consumes_input:
  assumes "pos < length src" and "src ! pos = q" and "q = CHR 0x22 \<or> q = CHR 0x27"
    and "unterminated q (drop (Suc pos) src)"
  shows "parseExpr src pos = (L (VStr []), length src)
    \<and> (p0 < length src \<and> at_pos src p0 ''{{'' \<and> \<not> list_ex (at_pos src p0) stops
          \<and> skipWs src (p0 + 2) = pos
        \<longrightarrow> parseNodes src p0 stops = ([I (L (VStr [])) False], length src))
    \<and> (at_pos src 0 ''{{'' \<and> skipWs src 2 = pos \<longrightarrow> render h reg src data = [])
    \<and> parseNodes src (snd (parseExpr src pos)) stops' = ([], length src)"
proof -
  have e: "parseExpr src pos = (L (VStr []), length src)"
    using assms by (rule parseExpr_unterminated)
  have rest: "parseNodes src (snd (parseExpr src pos)) stops' = ([], length src)"
    by (simp add: e parseNodes_at_end)
  have tag: "parseTag src pos = (I (L (VStr [])) False, length src)"
    using assms(1,2,3)
    by (subst parseTag.simps)
       (auto simp: e chr_def skipWs_end scan_close_end skip_end)
  have nodes: "parseNodes src p0 stops = ([I (L (VStr [])) False], length src)"
    if "p0 < length src" "at_pos src p0 ''{{''" "\<not> list_ex (at_pos src p0) stops"
      "skipWs src (p0 + 2) = pos" for p0 stops
  proof -
    have "src ! p0 = CHR ''{''"
      using that(1,2) by (auto simp: at_pos_def take_Suc_conv_app_nth hd_drop_conv_nth dest!: arg_cong [where f = hd])
    then have "src ! p0 \<noteq> CHR 0x5C" by simp
    then show ?thesis
      using that by (subst parseNodes.simps) (simp add: tag parseNodes_at_end)
  qed
  have "render h reg src data = []" if "at_pos src 0 ''{{''" "skipWs src 2 = pos"
  proof -
    have "0 < length src" using assms(1) by auto
    then have "parseNodes src 0 [] = ([I (L (VStr [])) False], length src)"
      using that by (intro nodes) (simp_all add: numeral_2_eq_2)
    then show ?thesis
      by (simp add: render_def compile_def nullish_def esc_def replaceAll_def)
  qed
  then show ?thesis using e nodes rest by blast
qed

text \<open>
  The template \<^verbatim>\<open>{{ "a\" }} tail\<close>: the literal opened at index 3 is never closed, the
  only later quote being escaped.
\<close>

theorem unterminated_string_consumes_input_witness:
  "parseExpr (''{{ '' @ [CHR 0x22, CHR ''a'', CHR 0x5C, CHR 0x22] @ '' }} tail'') 3
     = (L (VStr []), 15)
   \<and> parseNodes (''{{ '' @ [CHR 0x22, CHR ''a'', CHR 0x5C, CHR 0x22] @ '' }} tail'') 0 []
     = ([I (L (VStr [])) False], 15)
   \<and> render sampleHost Map.empty
       (''{{ '' @ [CHR 0x22, CHR ''a'', CHR 0x5C, CHR 0x22] @ '' }} tail'') [] = []"
proof -
  let ?t = "''{{ '' @ [CHR 0x22, CHR ''a'', CHR 0x5C, CHR 0x22] @ '' }} tail''"
  have a: "3 < length ?t" and b: "?t ! 3 = CHR 0x22"
    and c: "unterminated (CHR 0x22) (drop (Suc 3) ?t)" and d: "at_pos ?t 0 ''{{''"
    and e: "skipWs ?t 2 = 3" and f: "skipWs ?t (0 + 2) = 3" and g: "length ?t = 15"
    by code_simp+
  have h: "\<not> list_ex (at_pos ?t 0) []" by simp
  show ?thesis
    using unterminated_string_consumes_input [OF a b _ c, of 0 "[]" sampleHost Map.empty "[]"]
      d e f h
    unfolding g by simp
qed

text \<open>
  The claim as stated fails on \<^verbatim>\<open>{{ "hello }} world\<close>: the parse has no node for the
  text after the tag, the cursor is at the end of the input, and the output is empty, not
  \<^verbatim>\<open> world\<close>.
\<close>

theorem unterminated_string_counterexample:
  "fst (parseNodes (''{{ '' @ [CHR 0x22] @ ''hello }} world'') 0 []) = [I (L (VStr [])) False]
   \<and> snd (parseNodes (''{{ '' @ [CHR 0x22] @ ''hello }} world'') 0 [])
       = length (''{{ '' @ [CHR 0x22] @ ''hello }} world'')
   \<and> render sampleHost Map.empty (''{{ '' @ [CHR 0x22] @ ''hello }} world'') [] = []
   \<and> render sampleHost Map.empty (''{{ '' @ [CHR 0x22] @ ''hello }} world'') [] \<noteq> '' world''"
  by code_simp

text \<open>
  Claim C9 says that after the error node of an \<^verbatim>\<open>each\<close> tag without \<^verbatim>\<open>as\<close> the rest of
  the tag, up to and including its closing braces, is consumed. The code continues right
  after the word it read in place of \<^verbatim>\<open>as\<close>: on \<^verbatim>\<open>{{#each items}}x{{/each}}\<close> the
  closing braces of the tag are rendered as text, and on the template of the repository's
  test the rest of the tag, \<^verbatim>\<open>item}}\<close>, is. The branch for an unknown block keyword, by
  contrast, skips the closing braces.
\<close>

theorem each_missing_as_leaks_tag:
  "render sampleHost Map.empty ''{{#each items}}x{{/each}}'' [(''items'', VArr [VNum (Fin 1)])]
     = missingAs @ ''}}x''
   \<and> render sampleHost Map.empty ''{{#each items NOTASKEYWORD item}}{{ item }}{{/each}}''
       [(''items'', VArr [VNum (Fin 1), VNum (Fin 2)])]
     = missingAs @ ''item}}''
   \<and> render sampleHost Map.empty ''{{#unknown}}content{{/unknown}}'' []
     = ''[Error: unknown #unknown]content''"
  by code_simp


section \<open>Properties of rendering\<close>

lemma replaceAll_absent: "c \<notin> set s \<Longrightarrow> replaceAll c r s = s"
  by (induction s) (auto simp: replaceAll_def)

lemma dec_digits: "set (dec n) \<subseteq> set ''0123456789''"
proof (induction n rule: dec.induct)
  case (1 n)
  show ?case
  proof (cases "n < 10")
    case True
    then have "''0123456789'' ! n \<in> set ''0123456789''" by (intro nth_mem) simp
    then show ?thesis using True by (subst dec.simps) simp
  next
    case False
    have "n mod 10 < 10" by simp
    then have "''0123456789'' ! (n mod 10) \<in> set ''0123456789''" by (intro nth_mem) simp
    then show ?thesis using False 1 by (subst dec.simps) simp
  qed
qed

lemma esc_dec: "esc (dec n) = dec n"
proof -
  have "c \<notin> set (dec n)" if "c \<notin> set ''0123456789''" for c
    using dec_digits [of n] that by blast
  then show ?thesis by (simp add: esc_def replaceAll_absent)
qed

lemma numToString_nat: "n < 10 ^ 21 \<Longrightarrow> numToString h (Fin (of_nat n)) = dec n"
proof -
  assume "n < 10 ^ 21"
  then have "(of_nat n :: rat) < of_nat (10 ^ 21)" by (simp only: of_nat_less_iff)
  then show ?thesis by (simp add: numToString_def)
qed

lemma parse_s_length: "fst (parseNodes ''{{ s.length }}'' 0 []) = [I (V [''s'', ''length'']) False]"
  by code_simp

lemma parse_s_0: "fst (parseNodes ''{{ s.0 }}'' 0 []) = [I (V [''s'', ''0'']) False]"
  by code_simp

lemma parse_s_0_raw: "fst (parseNodes ''{{+ s.0 +}}'' 0 []) = [I (V [''s'', ''0'']) True]"
  by code_simp

text \<open>
  Claim C10, amended. In a context that binds \<^verbatim>\<open>s\<close> to a string, \<^verbatim>\<open>{{ s.length }}\<close>
  renders the length of the string in decimal digits; \<^verbatim>\<open>{{ s.0 }}\<close> renders the first
  character after escaping for HTML (the character itself in the raw tag
  \<^verbatim>\<open>{{+ s.0 +}}\<close>), and nothing when the string is empty. (The bound on the length holds
  for every string of the runtime; above it a number prints in exponent notation.)
\<close>

theorem string_own_properties:
  assumes "map_of data ''s'' = Some (VStr str)" and "length str < 10 ^ 21"
  shows "render h reg ''{{ s.length }}'' data = dec (length str)
    \<and> render h reg ''{{ s.0 }}'' data = (if str = [] then [] else esc [hd str])
    \<and> render h reg ''{{+ s.0 +}}'' data = (if str = [] then [] else [hd str])"
proof -
  have i0: "indexOf ''0'' = Some 0" by (simp add: indexOf_def isDigit_def digitsVal_def digitVal_def)
  have "render h reg ''{{ s.length }}'' data = dec (length str)"
    using assms
    by (simp add: render_def compile_def parse_s_length nullish_def numToString_nat esc_dec)
  moreover have "render h reg ''{{ s.0 }}'' data = (if str = [] then [] else esc [hd str])"
    using assms(1)
    by (cases str) (simp_all add: render_def compile_def parse_s_0 nullish_def i0 esc_def replaceAll_def)
  moreover have "render h reg ''{{+ s.0 +}}'' data = (if str = [] then [] else [hd str])"
    using assms(1)
    by (cases str) (simp_all add: render_def compile_def parse_s_0_raw nullish_def i0)
  ultimately show ?thesis by simp
qed

text \<open>With \<^verbatim>\<open>s\<close> bound to \<^verbatim>\<open>hello\<close>: \<^verbatim>\<open>5\<close> and \<^verbatim>\<open>h\<close>.\<close>

theorem string_own_properties_witness:
  "render sampleHost Map.empty ''{{ s.length }}'' [(''s'', VStr ''hello'')] = ''5''
   \<and> render sampleHost Map.empty ''{{ s.0 }}'' [(''s'', VStr ''hello'')] = ''h''
   \<and> render sampleHost Map.empty ''{{+ s.0 +}}'' [(''s'', VStr ''hello'')] = ''h''"
  using string_own_properties [of "[(''s'', VStr ''hello'')]" "''hello''" sampleHost Map.empty]
  by (simp add: dec_digit esc_def replaceAll_def)

text \<open>
  The claim as stated fails where the first character is one that \<^verbatim>\<open>esc\<close> rewrites:
  for \<^verbatim>\<open><b\<close> the output of \<^verbatim>\<open>{{ s.0 }}\<close> is \<^verbatim>\<open>&lt;\<close>; and for the empty string,
  which has no first character, it is empty.
\<close>

theorem string_index_counterexample:
  "render sampleHost Map.empty ''{{ s.0 }}'' [(''s'', VStr ''<b'')] = ''&lt;''
   \<and> render sampleHost Map.empty ''{{ s.0 }}'' [(''s'', VStr ''<b'')] \<noteq> ''<''
   \<and> render sampleHost Map.empty ''{{ s.0 }}'' [(''s'', VStr [])] = []"
  by code_simp

lemma for_loop_concat: "for_loop i n f = concat (map f [i..<n])"
proof (induction i n f rule: for_loop.induct)
  case (1 i n f)
  show ?case
  proof (cases "i < n")
    case True
    then show ?thesis using 1 by (subst for_loop.simps) (simp add: upt_conv_Cons)
  next
    case False
    then show ?thesis by (subst for_loop.simps) simp
  qed
qed

lemma rn_append: "rn h reg (ns @ ms) ctx = rn h reg ns ctx @ rn h reg ms ctx"
  by (induction ns) simp_all

lemma map_of_assign:
  "map_of (assign obj k v) k' =
     (if k = ''__proto__'' \<and> map_of obj k = None then map_of obj k'
      else if k' = k then Some v else map_of obj k')"
  by (auto simp add: assign_def update_conv')

text \<open>
  The scope of a loop. Over a non-empty array the loop renders the body once per element,
  in order, each time in the context \<open>local_ctx\<close> of that element. In that context
  every key other than the two binding names reads as in the enclosing context, the
  element name reads the element (unless the index name is the same name), and the index
  name, when it is neither empty nor \<^verbatim>\<open>__proto__\<close>, reads the index. The enclosing
  context is a value and is not changed: the nodes after the loop are rendered in it.
\<close>

lemma loop_scope_frame:
  assumes "fst (ev h reg src ctx) = VArr xs" and "xs \<noteq> []"
  shows "rn_node h reg (E src as idx body els) ctx =
           concat (map (\<lambda>i. rn h reg body (local_ctx ctx as idx xs i)) [0..<length xs])"
    and "k \<noteq> as \<Longrightarrow> idx \<noteq> Some k \<Longrightarrow> map_of (local_ctx ctx as idx xs i) k = map_of ctx k"
    and "idx \<noteq> Some as \<Longrightarrow> map_of (local_ctx ctx as idx xs i) as = Some (xs ! i)"
    and "idx = Some ix \<Longrightarrow> ix \<noteq> [] \<Longrightarrow> ix \<noteq> ''__proto__'' \<Longrightarrow>
           map_of (local_ctx ctx as idx xs i) ix = Some (VNum (Fin (of_nat i)))"
    and "rn h reg (E src as idx body els # rest) ctx =
           rn_node h reg (E src as idx body els) ctx @ rn h reg rest ctx"
proof -
  show "rn_node h reg (E src as idx body els) ctx =
           concat (map (\<lambda>i. rn h reg body (local_ctx ctx as idx xs i)) [0..<length xs])"
    using assms by (simp add: for_loop_concat)
  show "map_of (local_ctx ctx as idx xs i) k = map_of ctx k" if "k \<noteq> as" "idx \<noteq> Some k"
    using that by (auto simp: local_ctx_def map_of_assign update_conv' Let_def split: option.splits)
  show "map_of (local_ctx ctx as idx xs i) as = Some (xs ! i)" if "idx \<noteq> Some as"
    using that by (auto simp: local_ctx_def map_of_assign update_conv' Let_def split: option.splits)
  show "map_of (local_ctx ctx as idx xs i) ix = Some (VNum (Fin (of_nat i)))"
    if "idx = Some ix" "ix \<noteq> []" "ix \<noteq> ''__proto__''"
    using that by (auto simp: local_ctx_def map_of_assign update_conv' Let_def)
  show "rn h reg (E src as idx body els # rest) ctx =
           rn_node h reg (E src as idx body els) ctx @ rn h reg rest ctx"
    by simp
qed

text \<open>
  Claim C5 says that the context of an iteration has the index binding whenever an index
  name is declared. With the index name \<^verbatim>\<open>__proto__\<close> the code does not bind it: the
  assignment \<^verbatim>\<open>local[n.idx] = i\<close> runs the setter that \<^verbatim>\<open>local\<close> inherits, and the
  body reads nothing under that name, where it reads \<^verbatim>\<open>0\<close> under any other index name.
  The element binding, written as a computed key of the object literal, does bind the
  same name.
\<close>

theorem index_named_proto_unbound:
  "render sampleHost Map.empty ''{{#each xs as x, __proto__}}{{ __proto__ }}{{/each}}''
      [(''xs'', VArr [VStr ''a''])] = []
   \<and> render sampleHost Map.empty ''{{#each xs as x, i}}{{ i }}{{/each}}''
      [(''xs'', VArr [VStr ''a''])] = ''0''
   \<and> render sampleHost Map.empty ''{{#each xs as __proto__}}{{ __proto__ }}{{/each}}''
      [(''xs'', VArr [VStr ''a''])] = ''a''
   \<and> map_of (local_ctx [(''xs'', VArr [VStr ''a''])] ''x'' (Some ''__proto__'') [VStr ''a''] 0)
       ''__proto__'' = None"
  by code_simp

end
